theory Spec2Isabelle
  imports Main "HOL-Library.Word"
begin

unbundle bit_operations_syntax

section \<open>The bootstrap memory manager of \<^verbatim>\<open>memory.c\<close>\<close>

text \<open>
  The kernel targets a 32-bit machine: the heap starts at the literal address
  \<^verbatim>\<open>0x100000\<close>, and pointers are cast to \<^verbatim>\<open>u32\<close> and back. Addresses and
  \<^verbatim>\<open>u32\<close> values are therefore both 32-bit words, and all arithmetic on them wraps.
  The null pointer is the word 0.
\<close>

type_synonym u32 = "32 word"
type_synonym addr = "32 word"

subsection \<open>Data\<close>

text \<open>\<^verbatim>\<open>struct MemoryBlock\<close>: the header in front of every payload.\<close>

record MemoryBlock =
  blk_size :: u32
  blk_free :: bool
  blk_next :: addr
  blk_prev :: addr

text \<open>
  \<^verbatim>\<open>MemoryPoolType\<close>, \<^verbatim>\<open>MemoryPool\<close> and \<^verbatim>\<open>ErrorCode\<close> are declared in
  \<^verbatim>\<open>memory.h\<close> and \<^verbatim>\<open>kernel.h\<close>; the constructors and fields below are the ones
  \<^verbatim>\<open>memory.c\<close> uses.
\<close>

datatype MemoryPoolType =
  MEM_POOL_DEFAULT | MEM_POOL_SMALL | MEM_POOL_MEDIUM | MEM_POOL_LARGE | MEM_POOL_SPECIAL

datatype ErrorCode = ERR_SUCCESS | ERR_INVALID_ARG | ERR_GENERIC

record MemoryPool =
  pool_id :: u32
  pool_name :: string
  pool_type :: MemoryPoolType
  pool_base_address :: u32
  pool_size :: u32
  pool_block_size :: u32
  pool_flags :: u32
  pool_used :: u32
  pool_allocations :: u32
  pool_frees :: u32
  pool_peak_usage :: u32

text \<open>
  The values the compiler and the missing headers fix: \<^verbatim>\<open>sizeof(MemoryBlock)\<close>,
  \<^verbatim>\<open>sizeof(MemoryPool)\<close>, the macro \<^verbatim>\<open>MAX_MEMPOOLS\<close> and the width of the
  \<^verbatim>\<open>name\<close> field of a pool. Every operation takes them as a parameter.
\<close>

record platform =
  sizeof_MemoryBlock :: u32
  sizeof_MemoryPool :: u32
  MAX_MEMPOOLS :: u32
  sizeof_name :: nat

text \<open>
  The global state: the static variables of \<^verbatim>\<open>memory.c\<close> and the memory they point
  into. \<open>heap\<close> gives the block header that starts at an address, \<open>pool_mem\<close> the
  pool structure that starts at an address. Two pointers to the same address reach the
  same header, so a store through one is seen through the other; headers that start at
  different addresses are kept apart, and so are headers and pool structures. The
  counter \<open>memory_free_ctr\<close> is the static variable that the source calls
  \<^verbatim>\<open>memory_free\<close>, like the function.

  The store is the memory of the machine as long as the headers and pool structures
  that a call reads and writes are pairwise equal or disjoint. That is so in a heap
  whose blocks tile the arena (\<open>wf_heap\<close> below) under requests that do not wrap, with
  pointers that \<^verbatim>\<open>memory_alloc\<close> and \<^verbatim>\<open>mempool_create\<close> returned and that are still
  live; it is also so in the calls that the theorems evaluate on the booted machine,
  where an address that wraps falls exactly onto an existing header or right behind one.
  Three situations are outside it: a new header laid partly over another one
  (\<open>split_block\<close>), a release through a pointer that is not the payload address of a
  block (\<open>memory_free\<close>), and a pool structure read after the block that held it has
  been reused (\<open>mempool_destroy\<close>).
\<close>

record mem_state =
  heap :: "addr \<Rightarrow> MemoryBlock"
  pool_mem :: "addr \<Rightarrow> MemoryPool"
  memory_total :: u32
  memory_used :: u32
  memory_free_ctr :: u32
  memory_block_count :: u32
  memory_list :: addr
  memory_pools :: "addr list"
  memory_pool_count :: u32

definition MB :: u32 where
  "MB = 1048576"

subsection \<open>Writing one field of a block header\<close>

definition store_size :: "addr \<Rightarrow> u32 \<Rightarrow> mem_state \<Rightarrow> mem_state" where
  "store_size a v s = s\<lparr>heap := (heap s)(a := (heap s a)\<lparr>blk_size := v\<rparr>)\<rparr>"

definition store_free :: "addr \<Rightarrow> bool \<Rightarrow> mem_state \<Rightarrow> mem_state" where
  "store_free a v s = s\<lparr>heap := (heap s)(a := (heap s a)\<lparr>blk_free := v\<rparr>)\<rparr>"

definition store_next :: "addr \<Rightarrow> addr \<Rightarrow> mem_state \<Rightarrow> mem_state" where
  "store_next a v s = s\<lparr>heap := (heap s)(a := (heap s a)\<lparr>blk_next := v\<rparr>)\<rparr>"

definition store_prev :: "addr \<Rightarrow> addr \<Rightarrow> mem_state \<Rightarrow> mem_state" where
  "store_prev a v s = s\<lparr>heap := (heap s)(a := (heap s a)\<lparr>blk_prev := v\<rparr>)\<rparr>"

subsection \<open>\<^verbatim>\<open>memory_alloc\<close>\<close>

text \<open>
  The body of the \<^verbatim>\<open>if\<close> in the scan of \<^verbatim>\<open>memory_alloc\<close> (lines 73 to 92): the
  stores are made one after the other, each reading the memory the earlier ones left.
  When \<open>size' + sizeof_MemoryBlock\<close> wraps to 0 the new header is the current one, and
  the later stores overwrite the earlier ones as they do in memory. When the sum wraps to
  a value between 1 and \<open>sizeof_MemoryBlock - 1\<close> (on the 32-bit target, a request
  from \<^verbatim>\<open>0xFFFFFFF1\<close> to \<^verbatim>\<open>0xFFFFFFF8\<close>), the machine lays the new header partly
  over the current one, so that a store to a field of one changes a field of the other;
  the two records below stay apart, and the state computed for such a request is not
  the one the machine is left in.
\<close>

definition split_block :: "platform \<Rightarrow> u32 \<Rightarrow> addr \<Rightarrow> mem_state \<Rightarrow> addr \<times> mem_state" where
  "split_block cfg size' current s =
     (let new_block = current + sizeof_MemoryBlock cfg + size';
          s = store_size new_block
                (blk_size (heap s current) - size' - sizeof_MemoryBlock cfg) s;
          s = store_free new_block True s;
          s = store_next new_block (blk_next (heap s current)) s;
          s = store_prev new_block current s;
          s = (if blk_next (heap s current) \<noteq> 0
               then store_prev (blk_next (heap s current)) new_block s else s);
          s = store_size current size' s;
          s = store_free current False s;
          s = store_next current new_block s;
          s = s\<lparr>memory_used := memory_used s + (size' + sizeof_MemoryBlock cfg)\<rparr>;
          s = s\<lparr>memory_free_ctr := memory_free_ctr s - (size' + sizeof_MemoryBlock cfg)\<rparr>;
          s = s\<lparr>memory_block_count := memory_block_count s + 1\<rparr>
      in (current + sizeof_MemoryBlock cfg, s))"

text \<open>The test of line 72: the block is free and large enough, in \<^verbatim>\<open>u32\<close> arithmetic.\<close>

definition fits :: "platform \<Rightarrow> u32 \<Rightarrow> mem_state \<Rightarrow> addr \<Rightarrow> bool" where
  "fits cfg size' s current \<longleftrightarrow>
     blk_free (heap s current) \<and> size' + sizeof_MemoryBlock cfg \<le> blk_size (heap s current)"

text \<open>
  The \<^verbatim>\<open>while (current)\<close> loop. It follows \<^verbatim>\<open>next\<close> pointers through memory
  and need not end; \<open>None\<close> is the run that never returns.
\<close>

partial_function (option) alloc_scan ::
  "platform \<Rightarrow> u32 \<Rightarrow> mem_state \<Rightarrow> addr \<Rightarrow> (addr \<times> mem_state) option" where
  "alloc_scan cfg size' s current =
     (if current = 0 then Some (0, s)
      else if fits cfg size' s current then Some (split_block cfg size' current s)
      else alloc_scan cfg size' s (blk_next (heap s current)))"

definition align8 :: "u32 \<Rightarrow> u32" where
  "align8 n = (n + 7) AND NOT 7"

definition memory_alloc :: "platform \<Rightarrow> u32 \<Rightarrow> mem_state \<Rightarrow> (addr \<times> mem_state) option" where
  "memory_alloc cfg n s =
     (if n = 0 then Some (0, s) else alloc_scan cfg (align8 n) s (memory_list s))"

subsection \<open>\<^verbatim>\<open>memory_coalesce\<close> and \<^verbatim>\<open>memory_free\<close>\<close>

definition merge_next :: "platform \<Rightarrow> addr \<Rightarrow> mem_state \<Rightarrow> mem_state" where
  "merge_next cfg current s =
     (let s = store_size current
                (blk_size (heap s current)
                  + (blk_size (heap s (blk_next (heap s current))) + sizeof_MemoryBlock cfg)) s;
          s = store_next current (blk_next (heap s (blk_next (heap s current)))) s;
          s = (if blk_next (heap s current) \<noteq> 0
               then store_prev (blk_next (heap s current)) current s else s)
      in s\<lparr>memory_block_count := memory_block_count s - 1\<rparr>)"

partial_function (option) coalesce_loop ::
  "platform \<Rightarrow> mem_state \<Rightarrow> addr \<Rightarrow> mem_state option" where
  "coalesce_loop cfg s current =
     (if current \<noteq> 0 \<and> blk_next (heap s current) \<noteq> 0
      then (if blk_free (heap s current) \<and> blk_free (heap s (blk_next (heap s current)))
            then coalesce_loop cfg (merge_next cfg current s) current
            else coalesce_loop cfg s (blk_next (heap s current)))
      else Some s)"

definition memory_coalesce :: "platform \<Rightarrow> mem_state \<Rightarrow> mem_state option" where
  "memory_coalesce cfg s = coalesce_loop cfg s (memory_list s)"

text \<open>
  \<^verbatim>\<open>memory_free\<close> takes the \<open>sizeof_MemoryBlock\<close> bytes in front of the pointer for a
  block header, whatever they are. For the payload address of a block this is the header
  of that block. For any other pointer the machine reads and sets a flag byte inside
  whatever lies there, which may be part of a live header or of a pool structure; here
  the flag of a separate record is read and set, so the result describes the machine
  only for pointers that are payload addresses.
\<close>

definition memory_free :: "platform \<Rightarrow> addr \<Rightarrow> mem_state \<Rightarrow> (ErrorCode \<times> mem_state) option" where
  "memory_free cfg ptr s =
     (if ptr = 0 then Some (ERR_INVALID_ARG, s)
      else let block = ptr - sizeof_MemoryBlock cfg in
        if blk_free (heap s block) then Some (ERR_GENERIC, s)
        else
          let s = store_free block True s;
              s = s\<lparr>memory_used :=
                      memory_used s - (blk_size (heap s block) + sizeof_MemoryBlock cfg)\<rparr>;
              s = s\<lparr>memory_free_ctr :=
                      memory_free_ctr s + (blk_size (heap s block) + sizeof_MemoryBlock cfg)\<rparr>
          in map_option (Pair ERR_SUCCESS) (memory_coalesce cfg s))"

subsection \<open>Memory pools\<close>

fun mempool_get_block_size :: "MemoryPoolType \<Rightarrow> u32" where
  "mempool_get_block_size MEM_POOL_SMALL = 64"
| "mempool_get_block_size MEM_POOL_MEDIUM = 256"
| "mempool_get_block_size MEM_POOL_LARGE = 1024"
| "mempool_get_block_size MEM_POOL_SPECIAL = 4096"
| "mempool_get_block_size MEM_POOL_DEFAULT = 128"

text \<open>The loop that puts a pool into the first empty slot of the array.\<close>

fun registry_add :: "addr \<Rightarrow> addr list \<Rightarrow> addr list" where
  "registry_add pool [] = []"
| "registry_add pool (slot # slots) =
     (if slot = 0 then pool # slots else slot # registry_add pool slots)"


definition new_pool ::
  "platform \<Rightarrow> u32 \<Rightarrow> string \<Rightarrow> MemoryPoolType \<Rightarrow> addr \<Rightarrow> u32 \<Rightarrow> MemoryPool" where
  "new_pool cfg count name type pool_memory size' =
     \<lparr>pool_id = count + 1,
      pool_name = take (sizeof_name cfg - 1) name,
      pool_type = type,
      pool_base_address = pool_memory,
      pool_size = size',
      pool_block_size = mempool_get_block_size type,
      pool_flags = 0,
      pool_used = 0,
      pool_allocations = 0,
      pool_frees = 0,
      pool_peak_usage = 0\<rparr>"

definition mempool_create ::
  "platform \<Rightarrow> string \<Rightarrow> MemoryPoolType \<Rightarrow> u32 \<Rightarrow> mem_state \<Rightarrow> (addr \<times> mem_state) option" where
  "mempool_create cfg name type size' s =
     (if MAX_MEMPOOLS cfg \<le> memory_pool_count s then Some (0, s)
      else
        (case memory_alloc cfg (sizeof_MemoryPool cfg) s of
           None \<Rightarrow> None
         | Some (pool, s) \<Rightarrow>
             (if pool = 0 then Some (0, s)
              else
                (case memory_alloc cfg size' s of
                   None \<Rightarrow> None
                 | Some (pool_memory, s) \<Rightarrow>
                     (if pool_memory = 0
                      then (case memory_free cfg pool s of
                              None \<Rightarrow> None
                            | Some (_, s) \<Rightarrow> Some (0, s))
                      else
                        (let s = s\<lparr>pool_mem := (pool_mem s)
                                   (pool := new_pool cfg (memory_pool_count s)
                                              name type pool_memory size')\<rparr>;
                             s = s\<lparr>memory_pools := registry_add pool (memory_pools s)\<rparr>;
                             s = s\<lparr>memory_pool_count := memory_pool_count s + 1\<rparr>
                         in Some (pool, s)))))))"

definition mempool_alloc :: "addr \<Rightarrow> u32 \<Rightarrow> mem_state \<Rightarrow> addr \<times> mem_state" where
  "mempool_alloc pool size' s =
     (if pool = 0 \<or> size' = 0 then (0, s)
      else if pool_size (pool_mem s pool) < pool_used (pool_mem s pool) + size' then (0, s)
      else
        let ptr = pool_base_address (pool_mem s pool) + pool_used (pool_mem s pool);
            p = pool_mem s pool;
            p = p\<lparr>pool_used := pool_used p + size'\<rparr>;
            p = p\<lparr>pool_allocations := pool_allocations p + 1\<rparr>;
            p = (if pool_peak_usage p < pool_used p
                 then p\<lparr>pool_peak_usage := pool_used p\<rparr> else p)
        in (ptr, s\<lparr>pool_mem := (pool_mem s)(pool := p)\<rparr>))"

definition mempool_free :: "addr \<Rightarrow> addr \<Rightarrow> mem_state \<Rightarrow> ErrorCode \<times> mem_state" where
  "mempool_free pool ptr s =
     (if pool = 0 \<or> ptr = 0 then (ERR_INVALID_ARG, s)
      else (ERR_SUCCESS,
            s\<lparr>pool_mem := (pool_mem s)
                 (pool := (pool_mem s pool)\<lparr>pool_frees := pool_frees (pool_mem s pool) + 1\<rparr>)\<rparr>))"



subsection \<open>\<^verbatim>\<open>memory_init\<close>\<close>

datatype fatal = Panic string

definition heap_start :: addr where
  "heap_start = 0x100000"

definition heap_size :: u32 where
  "heap_size = 4 * MB"

definition memory_init :: "platform \<Rightarrow> mem_state \<Rightarrow> (fatal + ErrorCode \<times> mem_state) option" where
  "memory_init cfg s =
     (let s = s\<lparr>memory_total := 16 * MB\<rparr>;
          s = s\<lparr>memory_free_ctr := memory_total s\<rparr>;
          s = s\<lparr>memory_list := heap_start\<rparr>;
          s = store_size (memory_list s) (heap_size - sizeof_MemoryBlock cfg) s;
          s = store_free (memory_list s) True s;
          s = store_next (memory_list s) 0 s;
          s = store_prev (memory_list s) 0 s;
          s = s\<lparr>memory_block_count := 1\<rparr>;
          s = s\<lparr>memory_pools := replicate (unat (MAX_MEMPOOLS cfg)) 0\<rparr>;
          s = s\<lparr>memory_pool_count := 0\<rparr>
      in (case mempool_create cfg ''default'' MEM_POOL_DEFAULT (1 * MB) s of
            None \<Rightarrow> None
          | Some (default_pool, s) \<Rightarrow>
              (if default_pool = 0
               then Some (Inl (Panic ''Failed to create default memory pool''))
               else Some (Inr (ERR_SUCCESS, s)))))"

text \<open>
  The state at boot: the static variables hold their initialisers (zero, null, an array
  of null pointers) and memory holds whatever it holds.
\<close>

definition boot :: "platform \<Rightarrow> (addr \<Rightarrow> MemoryBlock) \<Rightarrow> (addr \<Rightarrow> MemoryPool) \<Rightarrow> mem_state" where
  "boot cfg h p =
     \<lparr>heap = h, pool_mem = p, memory_total = 0, memory_used = 0, memory_free_ctr = 0,
      memory_block_count = 0, memory_list = 0,
      memory_pools = replicate (unat (MAX_MEMPOOLS cfg)) 0, memory_pool_count = 0\<rparr>"

section \<open>The Block List and its invariant\<close>

text \<open>
  The Block List of a memory: the addresses met when following \<^verbatim>\<open>next\<close> from a
  pointer up to null. \<open>None\<close> when the walk never reaches null.
\<close>

partial_function (option) block_list :: "(addr \<Rightarrow> MemoryBlock) \<Rightarrow> addr \<Rightarrow> addr list option" where
  "block_list h p =
     (if p = 0 then Some []
      else Option.bind (block_list h (blk_next (h p))) (\<lambda>as. Some (p # as)))"

text \<open>\<open>chain h p as\<close>: following \<^verbatim>\<open>next\<close> from \<open>p\<close> visits exactly \<open>as\<close> and then null.\<close>

fun chain :: "(addr \<Rightarrow> MemoryBlock) \<Rightarrow> addr \<Rightarrow> addr list \<Rightarrow> bool" where
  "chain h p [] = (p = 0)"
| "chain h p (a # as) = (p = a \<and> a \<noteq> 0 \<and> chain h (blk_next (h a)) as)"

text \<open>What the allocator reads of a block: its address, its payload size and its flag.\<close>

type_synonym blk_view = "addr \<times> u32 \<times> bool"

definition view :: "(addr \<Rightarrow> MemoryBlock) \<Rightarrow> addr list \<Rightarrow> blk_view list" where
  "view h as = map (\<lambda>a. (a, blk_size (h a), blk_free (h a))) as"

text \<open>
  \<open>layout cfg bs lo hi\<close>: the blocks \<open>bs\<close> tile the addresses from \<open>lo\<close> to \<open>hi\<close>
  without gap or overlap, each taking its header and its payload.
\<close>

fun layout :: "platform \<Rightarrow> blk_view list \<Rightarrow> nat \<Rightarrow> nat \<Rightarrow> bool" where
  "layout cfg [] lo hi = (lo = hi)"
| "layout cfg ((a, sz, f) # bs) lo hi =
     (unat a = lo \<and> layout cfg bs (lo + unat (sizeof_MemoryBlock cfg) + unat sz) hi)"

text \<open>
  The invariant of the heap: the header size is not zero, the Block List is the finite
  chain \<open>as\<close>, and its blocks tile the arena of \<^verbatim>\<open>memory_init\<close>.
\<close>

definition wf_heap :: "platform \<Rightarrow> mem_state \<Rightarrow> addr list \<Rightarrow> bool" where
  "wf_heap cfg s as \<longleftrightarrow>
     0 < sizeof_MemoryBlock cfg \<and>
     chain (heap s) (memory_list s) as \<and>
     layout cfg (view (heap s) as) (unat heap_start) (unat heap_start + unat heap_size)"

text \<open>
  One pass of \<^verbatim>\<open>memory_coalesce\<close> as a function on the list of blocks: a free block
  followed by a free block absorbs it and is looked at again.
\<close>

fun coalesce_list :: "u32 \<Rightarrow> blk_view list \<Rightarrow> blk_view list" where
  "coalesce_list hdr [] = []"
| "coalesce_list hdr [b] = [b]"
| "coalesce_list hdr ((a, sa, fa) # (b, sb, fb) # bs) =
     (if fa \<and> fb then coalesce_list hdr ((a, sa + (sb + hdr), fa) # bs)
      else (a, sa, fa) # coalesce_list hdr ((b, sb, fb) # bs))"

text \<open>No two neighbours of the list are both free.\<close>

fun no_adjacent_free :: "blk_view list \<Rightarrow> bool" where
  "no_adjacent_free [] = True"
| "no_adjacent_free [b] = True"
| "no_adjacent_free ((a, sa, fa) # (b, sb, fb) # bs) =
     (\<not> (fa \<and> fb) \<and> no_adjacent_free ((b, sb, fb) # bs))"

text \<open>The sum of payload size plus header size over the Block List.\<close>

definition heap_total :: "platform \<Rightarrow> mem_state \<Rightarrow> nat option" where
  "heap_total cfg s =
     map_option
       (\<lambda>as. sum_list (map (\<lambda>a. unat (blk_size (heap s a)) + unat (sizeof_MemoryBlock cfg)) as))
       (block_list (heap s) (memory_list s))"

section \<open>A concrete machine\<close>

text \<open>
  An instance of the parameters for a 32-bit target: a 16-byte block header (a
  \<^verbatim>\<open>u32\<close>, a padded \<^verbatim>\<open>bool\<close> and two 4-byte pointers), a 72-byte pool structure
  with a 32-byte name, and 16 pool slots. \<open>ram0\<close> and \<open>pram0\<close> are a memory
  filled with zeros, and \<open>booted\<close> is the state \<^verbatim>\<open>memory_init\<close> leaves from it.
\<close>

definition cfg32 :: platform where
  "cfg32 = \<lparr>sizeof_MemoryBlock = 16, sizeof_MemoryPool = 72, MAX_MEMPOOLS = 16, sizeof_name = 32\<rparr>"

definition ram0 :: "addr \<Rightarrow> MemoryBlock" where
  "ram0 = (\<lambda>_. \<lparr>blk_size = 0, blk_free = False, blk_next = 0, blk_prev = 0\<rparr>)"

definition pram0 :: "addr \<Rightarrow> MemoryPool" where
  "pram0 = (\<lambda>_. new_pool cfg32 0 [] MEM_POOL_DEFAULT 0 0)"

definition booted :: mem_state where
  "booted =
     \<lparr>heap = ram0
        (0x100000 := \<lparr>blk_size = 72, blk_free = False, blk_next = 0x100058, blk_prev = 0\<rparr>,
         0x100058 := \<lparr>blk_size = 0x100000, blk_free = False, blk_next = 0x200068, blk_prev = 0x100000\<rparr>,
         0x200068 := \<lparr>blk_size = 0x2FFF88, blk_free = True, blk_next = 0, blk_prev = 0x100058\<rparr>),
      pool_mem = pram0
        (0x100010 := new_pool cfg32 0 ''default'' MEM_POOL_DEFAULT 0x100068 0x100000),
      memory_total = 0x1000000, memory_used = 0x100068, memory_free_ctr = 0xEFFF98,
      memory_block_count = 3, memory_list = 0x100000,
      memory_pools = 0x100010 # replicate 15 0, memory_pool_count = 1\<rparr>"

text \<open>
  A heap as \<^verbatim>\<open>memory_free\<close> hands it to \<^verbatim>\<open>memory_coalesce\<close>: the block at
  \<^verbatim>\<open>0x100030\<close> has just been marked free between two free neighbours.
\<close>

definition frag :: mem_state where
  "frag =
     \<lparr>heap = ram0
        (0x100000 := \<lparr>blk_size = 8, blk_free = False, blk_next = 0x100018, blk_prev = 0\<rparr>,
         0x100018 := \<lparr>blk_size = 8, blk_free = True, blk_next = 0x100030, blk_prev = 0x100000\<rparr>,
         0x100030 := \<lparr>blk_size = 16, blk_free = True, blk_next = 0x100050, blk_prev = 0x100018\<rparr>,
         0x100050 := \<lparr>blk_size = 24, blk_free = True, blk_next = 0x100078, blk_prev = 0x100030\<rparr>,
         0x100078 := \<lparr>blk_size = 8, blk_free = False, blk_next = 0x100090, blk_prev = 0x100050\<rparr>,
         0x100090 := \<lparr>blk_size = 0x3FFF60, blk_free = True, blk_next = 0, blk_prev = 0x100078\<rparr>),
      pool_mem = pram0,
      memory_total = 0x1000000, memory_used = 0x30, memory_free_ctr = 0xFFFFD0,
      memory_block_count = 6, memory_list = 0x100000,
      memory_pools = replicate 16 0, memory_pool_count = 0\<rparr>"


definition two_pools :: mem_state where
  "two_pools = booted
     \<lparr>heap := (heap booted)
        (0x200068 := \<lparr>blk_size = 72, blk_free = False, blk_next = 0x2000C0, blk_prev = 0x100058\<rparr>,
         0x2000C0 := \<lparr>blk_size = 4096, blk_free = False, blk_next = 0x2010D0, blk_prev = 0x200068\<rparr>,
         0x2010D0 := \<lparr>blk_size = 0x2FEF20, blk_free = True, blk_next = 0, blk_prev = 0x2000C0\<rparr>),
      pool_mem := (pool_mem booted)
        (0x200078 := new_pool cfg32 1 ''net'' MEM_POOL_SMALL 0x2000D0 4096),
      memory_used := 0x1010D0, memory_free_ctr := 0xEFEF30, memory_block_count := 5,
      memory_pools := 0x100010 # 0x200078 # replicate 14 0, memory_pool_count := 2\<rparr>"



text \<open>
  The booted machine after \<^verbatim>\<open>memory_alloc(0xFFFFFFF0)\<close> and after
  \<^verbatim>\<open>memory_alloc(0xFFFFFFFF)\<close>.
\<close>

definition wrapped :: mem_state where
  "wrapped = booted
     \<lparr>heap := (heap booted)
        (0x200068 := \<lparr>blk_size = 0xFFFFFFF0, blk_free = False, blk_next = 0x200068, blk_prev = 0x200068\<rparr>),
      memory_block_count := 4\<rparr>"

definition zero_sized :: mem_state where
  "zero_sized = booted
     \<lparr>heap := (heap booted)
        (0x200068 := \<lparr>blk_size = 0, blk_free = False, blk_next = 0x200078, blk_prev = 0x100058\<rparr>,
         0x200078 := \<lparr>blk_size = 0x2FFF78, blk_free = True, blk_next = 0, blk_prev = 0x200068\<rparr>),
      memory_used := 0x100078, memory_free_ctr := 0xEFFF88, memory_block_count := 4\<rparr>"

text \<open>
  A sequence of calls of \<^verbatim>\<open>memory_alloc\<close> and \<^verbatim>\<open>memory_free\<close>, run from a state. The
  releases of a run are meant for pointers that an earlier \<^verbatim>\<open>memory_alloc\<close> of the run
  returned.
\<close>

datatype request = Alloc u32 | Free addr

fun run_requests :: "platform \<Rightarrow> request list \<Rightarrow> mem_state \<Rightarrow> mem_state option" where
  "run_requests cfg [] s = Some s"
| "run_requests cfg (Alloc n # rs) s =
     (case memory_alloc cfg n s of None \<Rightarrow> None | Some (p, s') \<Rightarrow> run_requests cfg rs s')"
| "run_requests cfg (Free p # rs) s =
     (case memory_free cfg p s of None \<Rightarrow> None | Some (e, s') \<Rightarrow> run_requests cfg rs s')"

section \<open>Facts about chains and layouts\<close>

lemma chain_unique: "chain h p as \<Longrightarrow> chain h p bs \<Longrightarrow> as = bs"
proof (induction as arbitrary: p bs)
  case Nil
  then show ?case by (cases bs) auto
next
  case (Cons a as)
  then show ?case by (cases bs) auto
qed

lemma chain_append:
  "chain h p (as @ bs) \<Longrightarrow> \<exists>q. chain h q bs"
  by (induction as arbitrary: p) auto

lemma chain_hd_notin_tl:
  assumes "chain h a (a # as)"
  shows "a \<notin> set as"
proof
  assume "a \<in> set as"
  then obtain xs ys where split: "as = xs @ a # ys"
    by (auto simp: in_set_conv_decomp)
  from assms have c1: "chain h (blk_next (h a)) (xs @ a # ys)"
    by (simp add: split)
  have "\<And>p. chain h p (xs @ a # ys) \<Longrightarrow> chain h a (a # ys)"
    by (induction xs) auto
  with c1 have "chain h (blk_next (h a)) ys" by fastforce
  with c1 have "xs @ a # ys = ys" by (rule chain_unique)
  then have "length (xs @ a # ys) = length ys" by simp
  then show False by simp
qed

lemma chain_distinct: "chain h p as \<Longrightarrow> distinct as"
proof (induction as arbitrary: p)
  case Nil
  show ?case by simp
next
  case (Cons a as)
  from Cons.prems have "chain h a (a # as)" by simp
  then have "a \<notin> set as" by (rule chain_hd_notin_tl)
  moreover from Cons have "distinct as" by auto
  ultimately show ?case by simp
qed

lemma chain_cong:
  "(\<And>a. a \<in> set as \<Longrightarrow> blk_next (h' a) = blk_next (h a)) \<Longrightarrow> chain h' p as = chain h p as"
  by (induction as arbitrary: p) auto

lemma chain_nonnull: "chain h p as \<Longrightarrow> 0 \<notin> set as"
  by (induction as arbitrary: p) auto

lemma block_list_chain: "chain h p as \<Longrightarrow> block_list h p = Some as"
proof (induction as arbitrary: p)
  case Nil
  then show ?case by (simp add: block_list.simps)
next
  case (Cons a as)
  then have "block_list h (blk_next (h a)) = Some as" by simp
  with Cons.prems show ?case by (subst block_list.simps) simp
qed

lemma chain_block_list: "block_list h p = Some as \<Longrightarrow> chain h p as"
proof (induction as arbitrary: p)
  case Nil
  then show ?case
    by (subst (asm) block_list.simps) (auto split: if_splits simp: bind_eq_Some_conv)
next
  case (Cons a as)
  from Cons.prems have "p = a \<and> a \<noteq> 0 \<and> block_list h (blk_next (h a)) = Some as"
    by (subst (asm) block_list.simps) (auto split: if_splits simp: bind_eq_Some_conv)
  with Cons.IH show ?case by simp
qed

lemma block_list_iff: "block_list h p = Some as \<longleftrightarrow> chain h p as"
  by (blast intro: block_list_chain chain_block_list)

lemma alloc_scan_chain:
  "chain (heap s) p as \<Longrightarrow>
   alloc_scan cfg sz s p =
     (case find (fits cfg sz s) as of
        None \<Rightarrow> Some (0, s)
      | Some a \<Rightarrow> Some (split_block cfg sz a s))"
proof (induction as arbitrary: p)
  case Nil
  then show ?case by (simp add: alloc_scan.simps)
next
  case (Cons a as)
  then show ?case by (subst alloc_scan.simps) simp
qed

lemma view_simps [simp]:
  "view h [] = []"
  "view h (a # as) = (a, blk_size (h a), blk_free (h a)) # view h as"
  "view h (as @ bs) = view h as @ view h bs"
  by (simp_all add: view_def)

lemma view_fst [simp]: "map fst (view h as) = as"
  by (simp add: view_def comp_def)

lemma view_length [simp]: "length (view h as) = length as"
  by (simp add: view_def)

lemma view_cong:
  "(\<And>a. a \<in> set as \<Longrightarrow> blk_size (h' a) = blk_size (h a) \<and> blk_free (h' a) = blk_free (h a))
   \<Longrightarrow> view h' as = view h as"
  by (simp add: view_def)

lemma layout_append:
  "layout cfg (as @ bs) lo hi = (\<exists>mid. layout cfg as lo mid \<and> layout cfg bs mid hi)"
  by (induction as arbitrary: lo) auto

lemma layout_le: "layout cfg bs lo hi \<Longrightarrow> lo \<le> hi"
proof (induction bs arbitrary: lo)
  case Nil
  then show ?case by simp
next
  case (Cons b bs)
  obtain a sz f where b: "b = (a, sz, f)" by (cases b)
  with Cons have "lo + unat (sizeof_MemoryBlock cfg) + unat sz \<le> hi" by simp
  then show ?case by simp
qed

lemma layout_bounds:
  "layout cfg bs lo hi \<Longrightarrow> (a, sz, f) \<in> set bs \<Longrightarrow>
   lo \<le> unat a \<and> unat a + unat (sizeof_MemoryBlock cfg) + unat sz \<le> hi"
proof (induction bs arbitrary: lo)
  case Nil
  then show ?case by simp
next
  case (Cons b bs)
  obtain a' sz' f' where b: "b = (a', sz', f')" by (cases b)
  from Cons.prems(1) b
  have rest: "layout cfg bs (lo + unat (sizeof_MemoryBlock cfg) + unat sz') hi"
    and a': "unat a' = lo" by simp_all
  show ?case
  proof (cases "(a, sz, f) = b")
    case True
    with b a' layout_le [OF rest] show ?thesis by auto
  next
    case False
    with Cons.prems have "(a, sz, f) \<in> set bs" by auto
    from Cons.IH [OF rest this] show ?thesis by simp
  qed
qed

lemma layout_total:
  "layout cfg bs lo hi \<Longrightarrow>
   lo + sum_list (map (\<lambda>(a, sz, f). unat sz + unat (sizeof_MemoryBlock cfg)) bs) = hi"
proof (induction bs arbitrary: lo)
  case Nil
  then show ?case by simp
next
  case (Cons b bs)
  obtain a sz f where b: "b = (a, sz, f)" by (cases b)
  with Cons.prems
  have "layout cfg bs (lo + unat (sizeof_MemoryBlock cfg) + unat sz) hi"
    by simp
  from Cons.IH [OF this] b show ?case by (simp add: ac_simps)
qed

lemma layout_ascending:
  "0 < sizeof_MemoryBlock cfg \<Longrightarrow> layout cfg bs lo hi \<Longrightarrow> sorted_wrt (<) (map (unat \<circ> fst) bs)"
proof (induction bs arbitrary: lo)
  case Nil
  show ?case by simp
next
  case (Cons b bs)
  obtain a sz f where b: "b = (a, sz, f)" by (cases b)
  have pos: "0 < unat (sizeof_MemoryBlock cfg)"
    using Cons.prems(1) by (simp add: unat_gt_0)
  from Cons.prems b have rest: "layout cfg bs (lo + unat (sizeof_MemoryBlock cfg) + unat sz) hi"
    and a: "unat a = lo" by simp_all
  have "\<forall>x \<in> set bs. unat a < unat (fst x)"
  proof
    fix x assume x: "x \<in> set bs"
    obtain a' sz' f' where "x = (a', sz', f')" by (cases x)
    with x layout_bounds [OF rest, of a' sz' f']
    have "lo + unat (sizeof_MemoryBlock cfg) + unat sz \<le> unat (fst x)"
      by simp
    with pos a show "unat a < unat (fst x)" by simp
  qed
  with Cons.IH [OF Cons.prems(1) rest] b show ?case by simp
qed

subsection \<open>The state after \<open>split_block\<close>\<close>

lemma split_block_fst: "fst (split_block cfg sz c s) = c + sizeof_MemoryBlock cfg"
  by (simp add: split_block_def Let_def)

lemma split_block_globals:
  "memory_list (snd (split_block cfg sz c s)) = memory_list s"
  "memory_pools (snd (split_block cfg sz c s)) = memory_pools s"
  "memory_pool_count (snd (split_block cfg sz c s)) = memory_pool_count s"
  "pool_mem (snd (split_block cfg sz c s)) = pool_mem s"
  "memory_total (snd (split_block cfg sz c s)) = memory_total s"
  "memory_block_count (snd (split_block cfg sz c s)) = memory_block_count s + 1"
  "memory_used (snd (split_block cfg sz c s)) = memory_used s + (sz + sizeof_MemoryBlock cfg)"
  "memory_free_ctr (snd (split_block cfg sz c s)) = memory_free_ctr s - (sz + sizeof_MemoryBlock cfg)"
  by (simp_all add: split_block_def Let_def store_size_def store_free_def store_next_def store_prev_def)

lemma split_block_current:
  "blk_free (heap (snd (split_block cfg sz c s)) c) = False"
  "blk_size (heap (snd (split_block cfg sz c s)) c) = sz"
  "blk_next (heap (snd (split_block cfg sz c s)) c) = c + sizeof_MemoryBlock cfg + sz"
  by (simp_all add: split_block_def Let_def store_size_def store_free_def store_next_def store_prev_def)

lemma split_block_next:
  "c + sizeof_MemoryBlock cfg + sz \<noteq> c \<Longrightarrow>
   blk_next (heap (snd (split_block cfg sz c s)) a) =
     (if a = c then c + sizeof_MemoryBlock cfg + sz
      else if a = c + sizeof_MemoryBlock cfg + sz then blk_next (heap s c)
      else blk_next (heap s a))"
  by (simp add: split_block_def Let_def store_size_def store_free_def store_next_def store_prev_def)

lemma split_block_size:
  "c + sizeof_MemoryBlock cfg + sz \<noteq> c \<Longrightarrow>
   blk_size (heap (snd (split_block cfg sz c s)) a) =
     (if a = c then sz
      else if a = c + sizeof_MemoryBlock cfg + sz
      then blk_size (heap s c) - sz - sizeof_MemoryBlock cfg
      else blk_size (heap s a))"
  by (simp add: split_block_def Let_def store_size_def store_free_def store_next_def store_prev_def)

lemma split_block_free:
  "c + sizeof_MemoryBlock cfg + sz \<noteq> c \<Longrightarrow>
   blk_free (heap (snd (split_block cfg sz c s)) a) =
     (if a = c then False
      else if a = c + sizeof_MemoryBlock cfg + sz then True
      else blk_free (heap s a))"
  by (simp add: split_block_def Let_def store_size_def store_free_def store_next_def store_prev_def)

lemma split_block_prev:
  "c + sizeof_MemoryBlock cfg + sz \<noteq> c \<Longrightarrow>
   blk_next (heap s c) \<noteq> c \<Longrightarrow>
   blk_next (heap s c) \<noteq> c + sizeof_MemoryBlock cfg + sz \<Longrightarrow>
   blk_prev (heap (snd (split_block cfg sz c s)) a) =
     (if a = c + sizeof_MemoryBlock cfg + sz then c
      else if a = blk_next (heap s c) \<and> a \<noteq> 0 then c + sizeof_MemoryBlock cfg + sz
      else blk_prev (heap s a))"
  by (simp add: split_block_def Let_def store_size_def store_free_def store_next_def store_prev_def)

lemma find_decomp:
  "find P as = Some c \<Longrightarrow> \<exists>pre post. as = pre @ c # post \<and> P c \<and> (\<forall>a \<in> set pre. \<not> P a)"
proof (induction as)
  case Nil
  then show ?case by simp
next
  case (Cons a as)
  show ?case
  proof (cases "P a")
    case True
    with Cons.prems have "a = c" by simp
    with True have "a # as = [] @ c # as \<and> P c \<and> (\<forall>a \<in> set []. \<not> P a)" by simp
    then show ?thesis by blast
  next
    case False
    with Cons obtain pre post where "as = pre @ c # post" "P c" "\<forall>a \<in> set pre. \<not> P a"
      by auto
    with False have "a # as = (a # pre) @ c # post \<and> P c \<and> (\<forall>x \<in> set (a # pre). \<not> P x)"
      by simp
    then show ?thesis by blast
  qed
qed

lemma chain_insert:
  assumes "chain h p (pre @ c # post)"
    and "nb \<notin> set (pre @ c # post)" and "nb \<noteq> 0"
    and nxt: "\<And>a. blk_next (h' a) =
       (if a = c then nb else if a = nb then blk_next (h c) else blk_next (h a))"
  shows "chain h' p (pre @ c # nb # post)"
proof -
  from assms(1) have "distinct (pre @ c # post)" by (rule chain_distinct)
  with assms(1,2) show ?thesis
  proof (induction pre arbitrary: p)
    case Nil
    then have "chain h (blk_next (h c)) post" and "c \<notin> set post" and "nb \<notin> set post"
      and "p = c" and "c \<noteq> 0" and "nb \<noteq> c"
      by auto
    moreover have "chain h' (blk_next (h c)) post = chain h (blk_next (h c)) post"
      using \<open>c \<notin> set post\<close> \<open>nb \<notin> set post\<close> by (intro chain_cong) (auto simp: nxt)
    ultimately show ?case using \<open>nb \<noteq> 0\<close> by (simp add: nxt)
  next
    case (Cons a pre)
    then have "a \<noteq> c" and "a \<noteq> nb" by auto
    with Cons show ?case by (simp add: nxt)
  qed
qed

lemma arena_end: "unat heap_start + unat heap_size = 5242880"
  by (simp add: heap_start_def heap_size_def MB_def)

lemma arena_start: "unat heap_start = 1048576"
  by (simp add: heap_start_def)

lemma view_mem: "a \<in> set as \<Longrightarrow> (a, blk_size (h a), blk_free (h a)) \<in> set (view h as)"
  by (auto simp: view_def)

lemma layout_view_bounds:
  "layout cfg (view h as) lo hi \<Longrightarrow> a \<in> set as \<Longrightarrow>
   lo \<le> unat a \<and> unat a + unat (sizeof_MemoryBlock cfg) + unat (blk_size (h a)) \<le> hi"
  using layout_bounds view_mem by blast

lemma split_view:
  assumes pos: "0 < sizeof_MemoryBlock cfg"
    and ch: "chain (heap s) p (pre @ c # post)"
    and lay: "layout cfg (view (heap s) (pre @ c # post)) lo hi"
    and hi: "hi \<le> 2 ^ 32"
    and lo: "0 < lo"
    and fit: "unat sz + unat (sizeof_MemoryBlock cfg) \<le> unat (blk_size (heap s c))"
  shows "chain (heap (snd (split_block cfg sz c s))) p
           (pre @ c # (c + sizeof_MemoryBlock cfg + sz) # post)"
    and "view (heap (snd (split_block cfg sz c s)))
           (pre @ c # (c + sizeof_MemoryBlock cfg + sz) # post) =
         view (heap s) pre @
         [(c, sz, False),
          (c + sizeof_MemoryBlock cfg + sz, blk_size (heap s c) - sz - sizeof_MemoryBlock cfg, True)] @
         view (heap s) post"
    and "layout cfg (view (heap (snd (split_block cfg sz c s)))
           (pre @ c # (c + sizeof_MemoryBlock cfg + sz) # post)) lo hi"
    and "unat (c + sizeof_MemoryBlock cfg + sz) = unat c + unat (sizeof_MemoryBlock cfg) + unat sz"
    and "unat (blk_size (heap s c) - sz - sizeof_MemoryBlock cfg) =
         unat (blk_size (heap s c)) - unat sz - unat (sizeof_MemoryBlock cfg)"
proof -
  define hdr where "hdr = sizeof_MemoryBlock cfg"
  define cs where "cs = blk_size (heap s c)"
  define nb where "nb = c + hdr + sz"
  define s' where "s' = snd (split_block cfg sz c s)"
  have hpos: "0 < unat hdr" using pos by (simp add: hdr_def unat_gt_0)
  from lay obtain mid where
    lpre: "layout cfg (view (heap s) pre) lo mid" and
    c: "unat c = mid" and
    lpost: "layout cfg (view (heap s) post) (mid + unat hdr + unat cs) hi"
    by (auto simp: layout_append hdr_def cs_def)
  have top: "mid + unat hdr + unat cs \<le> hi" using lpost by (rule layout_le)
  have fit': "unat sz + unat hdr \<le> unat cs" using fit by (simp add: hdr_def cs_def)
  have "unat c + unat hdr < 2 ^ LENGTH(32)"
    using top hi c fit' hpos by simp
  then have u1: "unat (c + hdr) = unat c + unat hdr"
    by (simp only: unat_add_lem)
  have "unat (c + hdr) + unat sz < 2 ^ LENGTH(32)"
    using top hi c fit' hpos u1 by simp
  then have "unat (c + hdr + sz) = unat (c + hdr) + unat sz"
    by (simp only: unat_add_lem)
  with u1 have unb: "unat nb = unat c + unat hdr + unat sz"
    by (simp add: nb_def)
  have "sz \<le> cs" using fit' by (simp add: word_le_nat_alt)
  then have u2: "unat (cs - sz) = unat cs - unat sz" by (rule unat_sub)
  have "hdr \<le> cs - sz" using fit' u2 by (simp add: word_le_nat_alt)
  then have urem: "unat (cs - sz - hdr) = unat cs - unat sz - unat hdr"
    using u2 by (simp add: unat_sub)
  have nbc: "nb \<noteq> c" using unb hpos by auto
  have nb0: "nb \<noteq> 0" using unb hpos by (auto simp: unat_eq_zero [symmetric])
  have nbpre: "nb \<notin> set pre"
  proof
    assume "nb \<in> set pre"
    from layout_view_bounds [OF lpre this] c unb hpos show False by simp
  qed
  have cpre: "c \<notin> set pre"
  proof
    assume "c \<in> set pre"
    from layout_view_bounds [OF lpre this] c hpos show False by (simp add: hdr_def)
  qed
  have nbpost: "nb \<notin> set post"
  proof
    assume "nb \<in> set post"
    from layout_view_bounds [OF lpost this] c unb hpos fit' show False by simp
  qed
  have cpost: "c \<notin> set post"
  proof
    assume "c \<in> set post"
    from layout_view_bounds [OF lpost this] c hpos show False by simp
  qed
  have nbc': "c + sizeof_MemoryBlock cfg + sz \<noteq> c" using nbc by (simp add: nb_def hdr_def)
  have nxt: "\<And>a. blk_next (heap s' a) =
       (if a = c then nb else if a = nb then blk_next (heap s c) else blk_next (heap s a))"
    unfolding s'_def nb_def hdr_def by (simp add: split_block_next [OF nbc'])
  have "chain (heap s') p (pre @ c # nb # post)"
    using ch _ nb0 nxt by (rule chain_insert) (use nbpre nbpost nbc in simp)
  then show "chain (heap (snd (split_block cfg sz c s))) p
           (pre @ c # (c + sizeof_MemoryBlock cfg + sz) # post)"
    by (simp add: s'_def nb_def hdr_def)
  have vpre: "view (heap s') pre = view (heap s) pre"
    using nbpre cpre unfolding s'_def nb_def hdr_def
    by (intro view_cong) (auto simp: split_block_size [OF nbc'] split_block_free [OF nbc'])
  have vpost: "view (heap s') post = view (heap s) post"
    using nbpost cpost unfolding s'_def nb_def hdr_def
    by (intro view_cong) (auto simp: split_block_size [OF nbc'] split_block_free [OF nbc'])
  have vw: "view (heap s') (pre @ c # nb # post) =
        view (heap s) pre @ [(c, sz, False), (nb, cs - sz - hdr, True)] @ view (heap s) post"
    using vpre vpost nbc unfolding s'_def nb_def hdr_def cs_def
    by (simp add: split_block_size [OF nbc'] split_block_free [OF nbc'])
  then show "view (heap (snd (split_block cfg sz c s)))
           (pre @ c # (c + sizeof_MemoryBlock cfg + sz) # post) =
         view (heap s) pre @
         [(c, sz, False),
          (c + sizeof_MemoryBlock cfg + sz, blk_size (heap s c) - sz - sizeof_MemoryBlock cfg, True)] @
         view (heap s) post"
    by (simp add: s'_def nb_def hdr_def cs_def)
  have "mid + unat hdr + unat cs = unat nb + unat hdr + unat (cs - sz - hdr)"
    using unb urem c fit' by simp
  from lpost [unfolded this]
  have "layout cfg (view (heap s) post) (unat nb + unat hdr + unat (cs - sz - hdr)) hi" .
  then have "layout cfg ((nb, cs - sz - hdr, True) # view (heap s) post) (mid + unat hdr + unat sz) hi"
    using unb c by (simp add: hdr_def)
  then have "layout cfg ((c, sz, False) # (nb, cs - sz - hdr, True) # view (heap s) post) mid hi"
    using c by (simp add: hdr_def)
  with lpre have "layout cfg (view (heap s') (pre @ c # nb # post)) lo hi"
    unfolding vw layout_append by auto
  then show "layout cfg (view (heap (snd (split_block cfg sz c s)))
           (pre @ c # (c + sizeof_MemoryBlock cfg + sz) # post)) lo hi"
    by (simp add: s'_def nb_def hdr_def)
  show "unat (c + sizeof_MemoryBlock cfg + sz) = unat c + unat (sizeof_MemoryBlock cfg) + unat sz"
    using unb by (simp add: nb_def hdr_def)
  show "unat (blk_size (heap s c) - sz - sizeof_MemoryBlock cfg) =
         unat (blk_size (heap s c)) - unat sz - unat (sizeof_MemoryBlock cfg)"
    using urem by (simp add: hdr_def cs_def)
qed

lemma wf_split:
  assumes wf: "wf_heap cfg s (pre @ c # post)"
    and fit: "unat sz + unat (sizeof_MemoryBlock cfg) \<le> unat (blk_size (heap s c))"
  shows "wf_heap cfg (snd (split_block cfg sz c s))
           (pre @ c # (c + sizeof_MemoryBlock cfg + sz) # post)"
proof -
  from wf have pos: "0 < sizeof_MemoryBlock cfg"
    and ch: "chain (heap s) (memory_list s) (pre @ c # post)"
    and lay: "layout cfg (view (heap s) (pre @ c # post)) (unat heap_start) (unat heap_start + unat heap_size)"
    by (simp_all add: wf_heap_def)
  have hi: "unat heap_start + unat heap_size \<le> 2 ^ 32" by (simp add: arena_end)
  have lo: "0 < unat heap_start" by (simp add: arena_start)
  from split_view(1,3) [OF pos ch lay hi lo fit] pos show ?thesis
    by (simp add: wf_heap_def split_block_globals)
qed

subsection \<open>The coalescing loop on a chain\<close>

lemma merge_next_size:
  "blk_size (heap (merge_next cfg a s) x) =
     (if x = a
      then blk_size (heap s a) + (blk_size (heap s (blk_next (heap s a))) + sizeof_MemoryBlock cfg)
      else blk_size (heap s x))"
  by (simp add: merge_next_def Let_def store_size_def store_next_def store_prev_def)

lemma merge_next_next:
  "blk_next (heap (merge_next cfg a s) x) =
     (if x = a then blk_next (heap s (blk_next (heap s a))) else blk_next (heap s x))"
  by (auto simp add: merge_next_def Let_def store_size_def store_next_def store_prev_def)

lemma merge_next_free:
  "blk_free (heap (merge_next cfg a s) x) = blk_free (heap s x)"
  by (simp add: merge_next_def Let_def store_size_def store_next_def store_prev_def)

lemma merge_next_other:
  "x \<noteq> a \<Longrightarrow> x = 0 \<or> x \<noteq> blk_next (heap s (blk_next (heap s a))) \<Longrightarrow>
   heap (merge_next cfg a s) x = heap s x"
  by (auto simp add: merge_next_def Let_def store_size_def store_next_def store_prev_def)

lemma merge_next_globals:
  "memory_block_count (merge_next cfg a s) = memory_block_count s - 1"
  "(merge_next cfg a s)\<lparr>heap := h, memory_block_count := n\<rparr> = s\<lparr>heap := h, memory_block_count := n\<rparr>"
  by (simp_all add: merge_next_def Let_def store_size_def store_next_def store_prev_def)

lemma coalesce_list_length: "length (coalesce_list hdr v) \<le> length v"
  by (induction hdr v rule: coalesce_list.induct) auto

lemma coalesce_list_addrs: "set (map fst (coalesce_list hdr v)) \<subseteq> set (map fst v)"
  by (induction hdr v rule: coalesce_list.induct) auto

lemma coalesce_loop_chain:
  assumes "chain (heap s) cur as"
  shows "\<exists>s'. coalesce_loop cfg s cur = Some s' \<and>
     chain (heap s') cur (map fst (coalesce_list (sizeof_MemoryBlock cfg) (view (heap s) as))) \<and>
     view (heap s') (map fst (coalesce_list (sizeof_MemoryBlock cfg) (view (heap s) as))) =
       coalesce_list (sizeof_MemoryBlock cfg) (view (heap s) as) \<and>
     (\<forall>x. x \<notin> set as \<longrightarrow> heap s' x = heap s x) \<and>
     (\<forall>x. blk_free (heap s' x) = blk_free (heap s x)) \<and>
     memory_block_count s' + of_nat (length as) =
       memory_block_count s
         + of_nat (length (coalesce_list (sizeof_MemoryBlock cfg) (view (heap s) as))) \<and>
     s' = s\<lparr>heap := heap s', memory_block_count := memory_block_count s'\<rparr>"
  using assms
proof (induction "length as" arbitrary: s as cur rule: less_induct)
  case less
  define hdr where "hdr = sizeof_MemoryBlock cfg"
  show ?case
  proof (cases as)
    case Nil
    with less.prems have "cur = 0" by simp
    then have "coalesce_loop cfg s cur = Some s" by (simp add: coalesce_loop.simps)
    with Nil \<open>cur = 0\<close> show ?thesis by simp
  next
    case (Cons a as1)
    note as = Cons
    with less.prems have cur: "cur = a" and a0: "a \<noteq> 0"
      and ch1: "chain (heap s) (blk_next (heap s a)) as1" by simp_all
    show ?thesis
    proof (cases as1)
      case Nil
      with ch1 have "blk_next (heap s a) = 0" by simp
      then have "coalesce_loop cfg s cur = Some s" by (simp add: coalesce_loop.simps cur)
      with Nil as cur a0 \<open>blk_next (heap s a) = 0\<close> show ?thesis by simp
    next
      case (Cons b bs)
      with ch1 have nb: "blk_next (heap s a) = b" and b0: "b \<noteq> 0"
        and ch2: "chain (heap s) (blk_next (heap s b)) bs" by simp_all
      from less.prems have "distinct as" by (rule chain_distinct)
      with as Cons have ab: "a \<noteq> b" and abs: "a \<notin> set bs" and bbs: "b \<notin> set bs" by auto
      show ?thesis
      proof (cases "blk_free (heap s a) \<and> blk_free (heap s b)")
        case True
        define s1 where "s1 = merge_next cfg a s"
        have step: "coalesce_loop cfg s cur = coalesce_loop cfg s1 a"
          using True a0 b0 nb cur by (subst coalesce_loop.simps) (simp add: s1_def)
        have "chain (heap s1) (blk_next (heap s b)) bs = chain (heap s) (blk_next (heap s b)) bs"
          using abs by (intro chain_cong) (auto simp: s1_def merge_next_next)
        with ch2 a0 nb have ch': "chain (heap s1) a (a # bs)"
          by (simp add: s1_def merge_next_next)
        have v1: "view (heap s1) bs = view (heap s) bs"
          using abs by (intro view_cong) (auto simp: s1_def merge_next_size merge_next_free)
        have v1': "view (heap s1) (a # bs) =
            (a, blk_size (heap s a) + (blk_size (heap s b) + hdr), blk_free (heap s a)) # view (heap s) bs"
          using v1 nb by (simp add: s1_def merge_next_size merge_next_free hdr_def)
        define R where "R = coalesce_list hdr (view (heap s) as)"
        have cl: "coalesce_list hdr (view (heap s1) (a # bs)) = R"
          unfolding v1' R_def using True by (simp add: as Cons)
        have "length (a # bs) < length as" by (simp add: as Cons)
        from less.hyps [OF this ch'] obtain s' where
          r: "coalesce_loop cfg s1 a = Some s'"
          and c: "chain (heap s') a (map fst (coalesce_list hdr (view (heap s1) (a # bs))))"
          and v: "view (heap s') (map fst (coalesce_list hdr (view (heap s1) (a # bs)))) =
                  coalesce_list hdr (view (heap s1) (a # bs))"
          and o: "\<forall>x. x \<notin> set (a # bs) \<longrightarrow> heap s' x = heap s1 x"
          and f: "\<forall>x. blk_free (heap s' x) = blk_free (heap s1 x)"
          and n: "memory_block_count s' + of_nat (length (a # bs)) =
                  memory_block_count s1 + of_nat (length (coalesce_list hdr (view (heap s1) (a # bs))))"
          and g: "s' = s1\<lparr>heap := heap s', memory_block_count := memory_block_count s'\<rparr>"
          unfolding hdr_def by blast
        note c = c [unfolded cl] and v = v [unfolded cl] and n = n [unfolded cl]
        have o': "\<forall>x. x \<notin> set as \<longrightarrow> heap s' x = heap s x"
        proof (intro allI impI)
          fix x assume x: "x \<notin> set as"
          then have "x \<notin> set (a # bs)" by (auto simp: as Cons)
          with o have "heap s' x = heap s1 x" by simp
          moreover have "x = 0 \<or> x \<noteq> blk_next (heap s (blk_next (heap s a)))"
          proof (cases bs)
            case Nil
            with ch2 nb show ?thesis by auto
          next
            case (Cons c cs)
            with ch2 nb have "blk_next (heap s (blk_next (heap s a))) = c" by simp
            with x as \<open>as1 = b # bs\<close> Cons show ?thesis by auto
          qed
          moreover from x have "x \<noteq> a" by (auto simp: as)
          ultimately show "heap s' x = heap s x" by (simp add: s1_def merge_next_other)
        qed
        have f': "\<forall>x. blk_free (heap s' x) = blk_free (heap s x)"
          using f by (simp add: s1_def merge_next_free)
        have "memory_block_count s1 = memory_block_count s - 1"
          by (simp add: s1_def merge_next_globals)
        with n have n': "memory_block_count s' + of_nat (length as) =
            memory_block_count s + of_nat (length R)"
          by (simp add: as Cons ac_simps)
        have "s1\<lparr>heap := heap s', memory_block_count := memory_block_count s'\<rparr> =
            s\<lparr>heap := heap s', memory_block_count := memory_block_count s'\<rparr>"
          unfolding s1_def by (rule merge_next_globals(2))
        with g have g': "s' = s\<lparr>heap := heap s', memory_block_count := memory_block_count s'\<rparr>"
          by simp
        from step r c v o' f' n' g' cur show ?thesis
          unfolding hdr_def R_def by auto
      next
        case False
        have step: "coalesce_loop cfg s cur = coalesce_loop cfg s b"
          using False a0 b0 nb cur by (subst coalesce_loop.simps) auto
        have chb: "chain (heap s) b (b # bs)" using ch2 b0 by simp
        have "length (b # bs) < length as" by (simp add: as Cons)
        from less.hyps [OF this chb] obtain s' where
          r: "coalesce_loop cfg s b = Some s'"
          and c: "chain (heap s') b (map fst (coalesce_list hdr (view (heap s) (b # bs))))"
          and v: "view (heap s') (map fst (coalesce_list hdr (view (heap s) (b # bs)))) =
                  coalesce_list hdr (view (heap s) (b # bs))"
          and o: "\<forall>x. x \<notin> set (b # bs) \<longrightarrow> heap s' x = heap s x"
          and f: "\<forall>x. blk_free (heap s' x) = blk_free (heap s x)"
          and n: "memory_block_count s' + of_nat (length (b # bs)) =
                  memory_block_count s + of_nat (length (coalesce_list hdr (view (heap s) (b # bs))))"
          and g: "s' = s\<lparr>heap := heap s', memory_block_count := memory_block_count s'\<rparr>"
          unfolding hdr_def by blast
        define Rb where "Rb = coalesce_list hdr (view (heap s) (b # bs))"
        note c = c [folded Rb_def] and v = v [folded Rb_def] and n = n [folded Rb_def]
        have cl: "coalesce_list hdr (view (heap s) as) =
            (a, blk_size (heap s a), blk_free (heap s a)) # Rb"
          unfolding Rb_def using False by (auto simp add: as Cons)
        have same: "heap s' a = heap s a" using o ab abs by simp
        have c': "chain (heap s') a (map fst (coalesce_list hdr (view (heap s) as)))"
          unfolding cl using c a0 nb same by simp
        have v': "view (heap s') (map fst (coalesce_list hdr (view (heap s) as))) =
            coalesce_list hdr (view (heap s) as)"
          unfolding cl using v same by simp
        have o': "\<forall>x. x \<notin> set as \<longrightarrow> heap s' x = heap s x"
          using o by (simp add: as Cons)
        have n': "memory_block_count s' + of_nat (length as) =
            memory_block_count s + of_nat (length (coalesce_list hdr (view (heap s) as)))"
          unfolding cl using n by (simp add: as Cons ac_simps)
        from step r c' v' o' f n' g cur show ?thesis
          unfolding hdr_def by auto
      qed
    qed
  qed
qed

subsection \<open>Rounding to a multiple of 8\<close>

lemma seven_is_mask: "(7::32 word) = mask 3"
  by (simp add: mask_eq_exp_minus_1)

lemma clear_low_bits: "(w::32 word) AND NOT 7 = push_bit 3 (drop_bit 3 w)"
  unfolding seven_is_mask
  by (rule bit_word_eqI) (auto simp add: bit_simps)

lemma unat_clear_low_bits: "unat ((w::32 word) AND NOT 7) = 8 * (unat w div 8)"
proof -
  have "unat (push_bit 3 (drop_bit 3 w)) = take_bit 32 (push_bit 3 (drop_bit 3 (unat w)))"
    by (simp add: unsigned_push_bit_eq unat_drop_bit_eq)
  also have "\<dots> = take_bit 32 (8 * (unat w div 8))"
    by (simp add: push_bit_eq_mult drop_bit_eq_div mult.commute)
  also have "\<dots> = 8 * (unat w div 8)"
  proof -
    have "unat w < 2 ^ 32" using unsigned_less [of w, where 'a = nat] by simp
    then have "8 * (unat w div 8) < 2 ^ 32" by simp
    then show ?thesis by (simp add: take_bit_nat_eq_self_iff)
  qed
  finally show ?thesis by (simp only: clear_low_bits)
qed

lemma round_down_mod: "8 * ((x mod 4294967296) div 8) = (8 * (x div 8)) mod (4294967296::nat)"
proof -
  have "(x mod (8 * 536870912)) div 8 = (x div 8) mod 536870912"
    by (simp only: mod_mult2_eq)
  then have "8 * ((x mod 4294967296) div 8) = 8 * ((x div 8) mod 536870912)" by simp
  also have "\<dots> = (8 * (x div 8)) mod (8 * 536870912)"
    by (simp only: mult_mod_right)
  finally show ?thesis by simp
qed

lemma align8_unat: "unat (align8 n) = (8 * ((unat n + 7) div 8)) mod 2 ^ 32"
proof -
  have "unat (align8 n) = 8 * (unat (n + 7) div 8)"
    by (simp only: align8_def unat_clear_low_bits)
  also have "unat (n + 7) = (unat n + 7) mod 2 ^ 32"
    by (simp add: unat_word_ariths)
  finally show ?thesis by (simp add: round_down_mod)
qed

lemma align8_small: "unat n \<le> 4294967288 \<Longrightarrow> unat (align8 n) = 8 * ((unat n + 7) div 8)"
  by (simp add: align8_unat)

lemma align8_ge: "unat n \<le> 4294967288 \<Longrightarrow> unat n \<le> unat (align8 n)"
  by (simp add: align8_small)

subsection \<open>The state after \<^verbatim>\<open>memory_init\<close>\<close>

lemma replicate16: "replicate 16 (0::addr) = 0 # replicate 15 0"
proof -
  have "(16::nat) = Suc 15" by simp
  then show ?thesis by (simp only: replicate_Suc)
qed

lemma booted_init: "memory_init cfg32 (boot cfg32 ram0 pram0) = Some (Inr (ERR_SUCCESS, booted))"
  apply (simp add: memory_init_def boot_def cfg32_def mempool_create_def memory_alloc_def align8_def Let_def
     alloc_scan.simps fits_def split_block_def store_size_def store_free_def store_next_def store_prev_def heap_start_def heap_size_def MB_def ram0_def booted_def new_pool_def pram0_def)
  apply (auto simp: fun_eq_iff replicate16)
  done

subsection \<open>First fit\<close>

lemma wf_heap_addr_bounds:
  assumes "wf_heap cfg s as" and "a \<in> set as"
  shows "1048576 \<le> unat a"
    and "unat a + unat (sizeof_MemoryBlock cfg) + unat (blk_size (heap s a)) \<le> 5242880"
    and "0 < unat (sizeof_MemoryBlock cfg)"
proof -
  from assms(1) have lay: "layout cfg (view (heap s) as) (unat heap_start) (unat heap_start + unat heap_size)"
    and pos: "0 < sizeof_MemoryBlock cfg"
    by (simp_all add: wf_heap_def)
  from layout_view_bounds [OF lay [unfolded arena_end, unfolded arena_start] assms(2)]
  show "1048576 \<le> unat a"
    and "unat a + unat (sizeof_MemoryBlock cfg) + unat (blk_size (heap s a)) \<le> 5242880"
    by simp_all
  from pos show "0 < unat (sizeof_MemoryBlock cfg)" by (simp add: unat_gt_0)
qed

lemma fits_nat:
  "unat sz + unat (sizeof_MemoryBlock cfg) < 2 ^ 32 \<Longrightarrow>
   fits cfg sz s a \<longleftrightarrow>
     blk_free (heap s a) \<and> unat sz + unat (sizeof_MemoryBlock cfg) \<le> unat (blk_size (heap s a))"
proof -
  assume "unat sz + unat (sizeof_MemoryBlock cfg) < 2 ^ 32"
  then have "unat sz + unat (sizeof_MemoryBlock cfg) < 2 ^ LENGTH(32)" by simp
  then have "unat (sz + sizeof_MemoryBlock cfg) = unat sz + unat (sizeof_MemoryBlock cfg)"
    by (simp only: unat_add_lem)
  then show ?thesis by (simp add: fits_def word_le_nat_alt)
qed

lemma exact_capacity_skipped:
  assumes wf: "wf_heap cfg s as" and a: "a \<in> set as" and eq: "blk_size (heap s a) = sz"
  shows "\<not> fits cfg sz s a"
proof -
  from wf_heap_addr_bounds [OF wf a] eq
  have b: "unat sz + unat (sizeof_MemoryBlock cfg) < 2 ^ 32" and pos: "0 < unat (sizeof_MemoryBlock cfg)"
    by simp_all
  from pos eq show ?thesis by (simp add: fits_nat [OF b])
qed

lemma wf_heap_ascending: "wf_heap cfg s as \<Longrightarrow> sorted_wrt (<) (map unat as)"
proof -
  assume wf: "wf_heap cfg s as"
  then have "sorted_wrt (<) (map (unat \<circ> fst) (view (heap s) as))"
    unfolding wf_heap_def by (blast intro: layout_ascending)
  moreover have "map (unat \<circ> fst) (view (heap s) as) = map unat as"
    by (simp add: view_def)
  ultimately show ?thesis by simp
qed

lemma booted_wf: "wf_heap cfg32 booted [0x100000, 0x100058, 0x200068]"
  by (simp add: wf_heap_def cfg32_def booted_def ram0_def view_def heap_start_def heap_size_def MB_def)

lemma cfg32_simps [simp]:
  "sizeof_MemoryBlock cfg32 = 16" "sizeof_MemoryPool cfg32 = 72"
  "MAX_MEMPOOLS cfg32 = 16" "sizeof_name cfg32 = 32"
  by (simp_all add: cfg32_def)

lemma booted_heap [simp]:
  "heap booted 0x100000 = \<lparr>blk_size = 72, blk_free = False, blk_next = 0x100058, blk_prev = 0\<rparr>"
  "heap booted 0x100058 = \<lparr>blk_size = 0x100000, blk_free = False, blk_next = 0x200068, blk_prev = 0x100000\<rparr>"
  "heap booted 0x200068 = \<lparr>blk_size = 0x2FFF88, blk_free = True, blk_next = 0, blk_prev = 0x100058\<rparr>"
  "memory_list booted = 0x100000"
  by (simp_all add: booted_def)

lemma find_first:
  "(\<forall>a \<in> set pre. \<not> P a) \<Longrightarrow> P c \<Longrightarrow> find P (pre @ c # post) = Some c"
  by (induction pre) auto

lemma memory_alloc_chain:
  "chain (heap s) (memory_list s) as \<Longrightarrow> n \<noteq> 0 \<Longrightarrow>
   memory_alloc cfg n s =
     (case find (fits cfg (align8 n) s) as of
        None \<Rightarrow> Some (0, s)
      | Some c \<Rightarrow> Some (split_block cfg (align8 n) c s))"
  by (simp add: memory_alloc_def alloc_scan_chain)

lemma wf_heap_chain: "wf_heap cfg s as \<Longrightarrow> chain (heap s) (memory_list s) as"
  by (simp add: wf_heap_def)

lemma wf_heap_block_list: "wf_heap cfg s as \<Longrightarrow> block_list (heap s) (memory_list s) = Some as"
  by (simp add: wf_heap_def block_list_chain)

lemma split_block_links:
  assumes ch: "chain (heap s) p (pre @ c # post)"
    and ch': "chain (heap (snd (split_block cfg sz c s))) p
                (pre @ c # (c + sizeof_MemoryBlock cfg + sz) # post)"
  shows "blk_prev (heap (snd (split_block cfg sz c s)) (c + sizeof_MemoryBlock cfg + sz)) = c"
    and "post \<noteq> [] \<Longrightarrow>
         blk_prev (heap (snd (split_block cfg sz c s)) (hd post)) = c + sizeof_MemoryBlock cfg + sz"
proof -
  define nb where "nb = c + sizeof_MemoryBlock cfg + sz"
  from ch' have d: "distinct (pre @ c # nb # post)" unfolding nb_def by (rule chain_distinct)
  from ch' have z: "0 \<notin> set (pre @ c # nb # post)" unfolding nb_def by (rule chain_nonnull)
  have "\<And>q. chain (heap s) q (pre @ c # post) \<Longrightarrow> chain (heap s) (blk_next (heap s c)) post"
    by (induction pre) auto
  with ch have cp: "chain (heap s) (blk_next (heap s c)) post" by blast
  have nx: "blk_next (heap s c) \<noteq> c \<and> blk_next (heap s c) \<noteq> nb"
  proof (cases post)
    case Nil
    with cp z show ?thesis by auto
  next
    case (Cons x xs)
    with cp d show ?thesis by auto
  qed
  from d have nbc: "c + sizeof_MemoryBlock cfg + sz \<noteq> c" by (auto simp: nb_def)
  from nx have n1: "blk_next (heap s c) \<noteq> c"
    and n2: "blk_next (heap s c) \<noteq> c + sizeof_MemoryBlock cfg + sz"
    by (simp_all add: nb_def)
  show "blk_prev (heap (snd (split_block cfg sz c s)) (c + sizeof_MemoryBlock cfg + sz)) = c"
    by (simp add: split_block_prev [OF nbc n1 n2])
  show "blk_prev (heap (snd (split_block cfg sz c s)) (hd post)) = c + sizeof_MemoryBlock cfg + sz"
    if "post \<noteq> []"
  proof -
    from that obtain x xs where post: "post = x # xs" by (cases post) auto
    with cp have "blk_next (heap s c) = x" and "x \<noteq> 0" by simp_all
    moreover from d post have "x \<noteq> nb" by auto
    ultimately show ?thesis
      by (simp add: split_block_prev [OF nbc n1 n2] post nb_def)
  qed
qed

subsection \<open>Coalescing as a function on lists\<close>

lemma coalesce_list_barrier:
  "xs = [] \<or> \<not> snd (snd (last xs)) \<Longrightarrow>
   coalesce_list hdr (xs @ ys) = coalesce_list hdr xs @ coalesce_list hdr ys"
proof (induction hdr xs rule: coalesce_list.induct)
  case (1 hdr)
  show ?case by simp
next
  case (2 hdr b)
  obtain a sa fa where b: "b = (a, sa, fa)" by (cases b)
  with 2 have "\<not> fa" by simp
  with b show ?case by (cases ys) auto
next
  case (3 hdr a sa fa b sb fb bs)
  show ?case
  proof (cases "fa \<and> fb")
    case True
    with 3 have "bs \<noteq> []" by auto
    with 3 True show ?thesis by simp
  next
    case False
    with 3 show ?thesis by auto
  qed
qed

lemma coalesce_list_run:
  "\<forall>b \<in> set rest. snd (snd b) \<Longrightarrow> ys = [] \<or> \<not> snd (snd (hd ys)) \<Longrightarrow>
   coalesce_list hdr ((a, sa, True) # rest @ ys) =
     (a, sa + sum_list (map (fst \<circ> snd) rest) + of_nat (length rest) * hdr, True)
       # coalesce_list hdr ys"
proof (induction rest arbitrary: sa)
  case Nil
  then show ?case by (cases ys) auto
next
  case (Cons b rest)
  obtain b' sb fb where b: "b = (b', sb, fb)" by (cases b)
  with Cons.prems have fb: "fb" by simp
  from Cons.prems have "\<forall>b \<in> set rest. snd (snd b)" by simp
  from Cons.IH [OF this Cons.prems(2), of "sa + (sb + hdr)"] b fb
  show ?case by (simp add: algebra_simps)
qed

lemma coalesce_list_no_adjacent: "no_adjacent_free (coalesce_list hdr v)"
proof (induction hdr v rule: coalesce_list.induct)
  case (3 hdr a sa fa b sb fb bs)
  show ?case
  proof (cases "fa \<and> fb")
    case True
    with 3 show ?thesis by simp
  next
    case False
    with 3 have IH: "no_adjacent_free (coalesce_list hdr ((b, sb, fb) # bs))" by simp
    have hd: "\<exists>sz rest. coalesce_list hdr ((b, sb, fb) # bs) = (b, sz, fb) # rest"
    proof -
      have "\<And>sz. \<exists>sz' rest. coalesce_list hdr ((b, sz, fb) # bs) = (b, sz', fb) # rest"
      proof (induction bs)
        case Nil
        show ?case by simp
      next
        case (Cons c cs)
        obtain c' sc fc where c: "c = (c', sc, fc)" by (cases c)
        show ?case
        proof (cases "fb \<and> fc")
          case True
          with Cons [of "sz + (sc + hdr)"] c show ?thesis by simp
        next
          case False
          with c show ?thesis by auto
        qed
      qed
      then show ?thesis by blast
    qed
    then obtain sz rest where e: "coalesce_list hdr ((b, sb, fb) # bs) = (b, sz, fb) # rest"
      by blast
    moreover have "coalesce_list hdr ((a, sa, fa) # (b, sb, fb) # bs) =
        (a, sa, fa) # coalesce_list hdr ((b, sb, fb) # bs)"
      using False by auto
    ultimately show ?thesis using IH False by auto
  qed
qed simp_all

lemma coalesce_list_fixed: "no_adjacent_free v \<Longrightarrow> coalesce_list hdr v = v"
  by (induction hdr v rule: coalesce_list.induct) auto

lemma coalesce_list_layout:
  "layout cfg v lo hi \<Longrightarrow> hi \<le> 2 ^ 32 \<Longrightarrow> 0 < unat (sizeof_MemoryBlock cfg) \<Longrightarrow>
   layout cfg (coalesce_list (sizeof_MemoryBlock cfg) v) lo hi"
proof (induction "sizeof_MemoryBlock cfg" v arbitrary: lo rule: coalesce_list.induct)
  case 1
  then show ?case by simp
next
  case (2 b)
  then show ?case by simp
next
  case (3 a sa fa b sb fb bs)
  define hdr where "hdr = sizeof_MemoryBlock cfg"
  from "3.prems" have a: "unat a = lo" and b: "unat b = lo + unat hdr + unat sa"
    and rest: "layout cfg bs (lo + unat hdr + unat sa + unat hdr + unat sb) hi"
    by (simp_all add: hdr_def)
  from layout_le [OF rest] have top: "lo + unat hdr + unat sa + unat hdr + unat sb \<le> hi" .
  show ?case
  proof (cases "fa \<and> fb")
    case True
    have "unat sb + unat hdr < 2 ^ LENGTH(32)" using top "3.prems"(2) \<open>0 < unat (sizeof_MemoryBlock cfg)\<close>
      by (simp add: hdr_def)
    then have u1: "unat (sb + hdr) = unat sb + unat hdr" by (simp only: unat_add_lem)
    have "unat sa + unat (sb + hdr) < 2 ^ LENGTH(32)"
      using top "3.prems"(2) \<open>0 < unat (sizeof_MemoryBlock cfg)\<close> u1 by (simp add: hdr_def)
    then have "unat (sa + (sb + hdr)) = unat sa + unat (sb + hdr)" by (simp only: unat_add_lem)
    with u1 have u: "unat (sa + (sb + hdr)) = unat sa + unat sb + unat hdr" by simp
    have eq: "lo + unat hdr + unat sa + unat hdr + unat sb = lo + unat hdr + unat (sa + (sb + hdr))"
      using u by simp
    from rest [unfolded eq] a have "layout cfg ((a, sa + (sb + hdr), fa) # bs) lo hi"
      by (simp add: hdr_def)
    from "3.hyps"(1) [OF True this [unfolded hdr_def] "3.prems"(2,3)] True
    show ?thesis by (simp add: hdr_def)
  next
    case False
    from "3.prems"(1) have "layout cfg ((b, sb, fb) # bs) (lo + unat hdr + unat sa) hi"
      by (simp add: hdr_def)
    from "3.hyps"(2) [OF False this [unfolded hdr_def] "3.prems"(2,3)] False a
    show ?thesis by (auto simp add: hdr_def)
  qed
qed

lemma coalesce_loop_fixed:
  "chain (heap s) cur as \<Longrightarrow> no_adjacent_free (view (heap s) as) \<Longrightarrow>
   coalesce_loop cfg s cur = Some s"
proof (induction as arbitrary: cur)
  case Nil
  then show ?case by (simp add: coalesce_loop.simps)
next
  case (Cons a as)
  show ?case
  proof (cases as)
    case Nil
    with Cons.prems show ?thesis by (simp add: coalesce_loop.simps)
  next
    case (Cons b bs)
    with Cons.prems have "cur = a" "a \<noteq> 0" "blk_next (heap s a) = b" "b \<noteq> 0"
      and nf: "\<not> (blk_free (heap s a) \<and> blk_free (heap s b))"
      and ch: "chain (heap s) b as" and na: "no_adjacent_free (view (heap s) as)"
      by auto
    from Cons.IH [OF ch na] have "coalesce_loop cfg s b = Some s" .
    with \<open>cur = a\<close> \<open>a \<noteq> 0\<close> \<open>blk_next (heap s a) = b\<close> \<open>b \<noteq> 0\<close> nf
    show ?thesis by (subst coalesce_loop.simps) auto
  qed
qed

lemma of_nat_sum_unat: "(of_nat (sum_list (map unat ws)) :: u32) = sum_list ws"
  by (induction ws) simp_all

lemma unat_sum_sizes:
  assumes "sum_list (map unat ws) + k * unat hdr < 2 ^ 32"
  shows "unat (sum_list ws + of_nat k * (hdr :: u32)) = sum_list (map unat ws) + k * unat hdr"
proof -
  have "(of_nat (sum_list (map unat ws) + k * unat hdr) :: u32) = sum_list ws + of_nat k * hdr"
    by (simp add: of_nat_sum_unat)
  moreover have "sum_list (map unat ws) + k * unat hdr < 2 ^ LENGTH(32)"
    using assms by simp
  ultimately show ?thesis by (rule of_nat_inverse)
qed

lemma view_sizes: "map (fst \<circ> snd) (view h as) = map (\<lambda>a. blk_size (h a)) as"
  by (simp add: view_def)

lemma view_flags: "(\<forall>b \<in> set (view h as). snd (snd b)) \<longleftrightarrow> (\<forall>a \<in> set as. blk_free (h a))"
  by (auto simp: view_def)

lemma view_last: "as \<noteq> [] \<Longrightarrow> snd (snd (last (view h as))) = blk_free (h (last as))"
  by (simp add: view_def last_map)

lemma view_hd: "as \<noteq> [] \<Longrightarrow> snd (snd (hd (view h as))) = blk_free (h (hd as))"
  by (simp add: view_def hd_map)

lemma view_nil: "view h as = [] \<longleftrightarrow> as = []"
  by (simp add: view_def)

lemma coalesce_view_run:
  assumes run: "run \<noteq> []" "\<forall>a \<in> set run. blk_free (h a)"
    and maxl: "pre = [] \<or> \<not> blk_free (h (last pre))"
    and maxr: "post = [] \<or> \<not> blk_free (h (hd post))"
  shows "coalesce_list hdr (view h (pre @ run @ post)) =
     coalesce_list hdr (view h pre) @
     (hd run, sum_list (map (\<lambda>a. blk_size (h a)) run) + of_nat (length run - 1) * hdr, True)
       # coalesce_list hdr (view h post)"
proof -
  from run(1) obtain a rest where r: "run = a # rest" by (cases run) auto
  have l: "view h pre = [] \<or> \<not> snd (snd (last (view h pre)))"
    using maxl by (auto simp: view_nil view_last)
  have rr: "view h post = [] \<or> \<not> snd (snd (hd (view h post)))"
    using maxr by (auto simp: view_nil view_hd)
  have fl: "\<forall>b \<in> set (view h rest). snd (snd b)"
    using run(2) r by (simp add: view_flags)
  have "coalesce_list hdr (view h (pre @ run @ post)) =
      coalesce_list hdr (view h pre) @ coalesce_list hdr (view h (run @ post))"
    using coalesce_list_barrier [OF l] by simp
  also have "view h (run @ post) = (a, blk_size (h a), True) # view h rest @ view h post"
    using run(2) r by simp
  also have "coalesce_list hdr \<dots> =
      (a, blk_size (h a) + sum_list (map (fst \<circ> snd) (view h rest))
            + of_nat (length (view h rest)) * hdr, True) # coalesce_list hdr (view h post)"
    using fl rr by (rule coalesce_list_run)
  finally show ?thesis by (simp add: r view_sizes)
qed

lemma memory_coalesce_wf:
  assumes "wf_heap cfg s as"
  shows "\<exists>s'. memory_coalesce cfg s = Some s' \<and>
     wf_heap cfg s' (map fst (coalesce_list (sizeof_MemoryBlock cfg) (view (heap s) as))) \<and>
     view (heap s') (map fst (coalesce_list (sizeof_MemoryBlock cfg) (view (heap s) as))) =
       coalesce_list (sizeof_MemoryBlock cfg) (view (heap s) as)"
proof -
  from assms have pos: "0 < sizeof_MemoryBlock cfg"
    and ch: "chain (heap s) (memory_list s) as"
    and lay: "layout cfg (view (heap s) as) (unat heap_start) (unat heap_start + unat heap_size)"
    by (simp_all add: wf_heap_def)
  define R where "R = coalesce_list (sizeof_MemoryBlock cfg) (view (heap s) as)"
  from coalesce_loop_chain [OF ch, of cfg] obtain s' where
    r: "coalesce_loop cfg s (memory_list s) = Some s'"
    and c: "chain (heap s') (memory_list s) (map fst R)"
    and v: "view (heap s') (map fst R) = R"
    and g: "s' = s\<lparr>heap := heap s', memory_block_count := memory_block_count s'\<rparr>"
    unfolding R_def by blast
  from g have ml: "memory_list s' = memory_list s"
    by (metis mem_state.select_convs(7) mem_state.surjective mem_state.update_convs(1,6))
  have "layout cfg R (unat heap_start) (unat heap_start + unat heap_size)"
    unfolding R_def using lay _ _
    by (rule coalesce_list_layout) (use pos in \<open>simp_all add: arena_end unat_gt_0\<close>)
  with c v pos ml r show ?thesis
    unfolding R_def [symmetric] by (auto simp: wf_heap_def memory_coalesce_def)
qed

lemma sum_list_plus_const:
  "sum_list (map (\<lambda>a. f a + (c::nat)) xs) = sum_list (map f xs) + length xs * c"
  by (induction xs) simp_all

lemma layout_view_total:
  "layout cfg (view h as) lo hi \<Longrightarrow>
   lo + sum_list (map (\<lambda>a. unat (blk_size (h a))) as) + length as * unat (sizeof_MemoryBlock cfg) = hi"
proof -
  assume "layout cfg (view h as) lo hi"
  from layout_total [OF this]
  have "lo + sum_list (map (\<lambda>a. unat (blk_size (h a)) + unat (sizeof_MemoryBlock cfg)) as) = hi"
    by (simp add: view_def comp_def)
  then show ?thesis by (simp add: sum_list_plus_const)
qed

lemma mem_state_list_unchanged:
  "s' = s\<lparr>heap := h, memory_block_count := n\<rparr> \<Longrightarrow>
   memory_list s' = memory_list s \<and> memory_pools s' = memory_pools s \<and>
   memory_pool_count s' = memory_pool_count s \<and> pool_mem s' = pool_mem s \<and>
   memory_used s' = memory_used s \<and> memory_free_ctr s' = memory_free_ctr s \<and>
   memory_total s' = memory_total s"
  by simp

lemma frag_heap [simp]:
  "heap frag 0x100000 = \<lparr>blk_size = 8, blk_free = False, blk_next = 0x100018, blk_prev = 0\<rparr>"
  "heap frag 0x100018 = \<lparr>blk_size = 8, blk_free = True, blk_next = 0x100030, blk_prev = 0x100000\<rparr>"
  "heap frag 0x100030 = \<lparr>blk_size = 16, blk_free = True, blk_next = 0x100050, blk_prev = 0x100018\<rparr>"
  "heap frag 0x100050 = \<lparr>blk_size = 24, blk_free = True, blk_next = 0x100078, blk_prev = 0x100030\<rparr>"
  "heap frag 0x100078 = \<lparr>blk_size = 8, blk_free = False, blk_next = 0x100090, blk_prev = 0x100050\<rparr>"
  "heap frag 0x100090 = \<lparr>blk_size = 0x3FFF60, blk_free = True, blk_next = 0, blk_prev = 0x100078\<rparr>"
  "memory_list frag = 0x100000" "memory_block_count frag = 6"
  by (simp_all add: frag_def)

lemma frag_wf:
  "wf_heap cfg32 frag ([0x100000] @ [0x100018, 0x100030, 0x100050] @ [0x100078, 0x100090])"
  by (simp add: wf_heap_def heap_start_def heap_size_def MB_def)

subsection \<open>Walks that never end\<close>

lemma coalesce_loop_selfloop:
  assumes "c \<noteq> 0" and "blk_next (heap s c) = c" and "blk_free (heap s c)"
  shows "coalesce_loop cfg s c = None"
proof (rule ccontr)
  assume "coalesce_loop cfg s c \<noteq> None"
  then obtain y where y: "coalesce_loop cfg s c = Some y" by auto
  have "\<not> (c \<noteq> 0 \<and> blk_next (heap s c) = c \<and> blk_free (heap s c))"
  proof (rule coalesce_loop.raw_induct
      [where P = "\<lambda>cfg s c y. \<not> (c \<noteq> 0 \<and> blk_next (heap s c) = c \<and> blk_free (heap s c))",
        OF _ y])
    fix f :: "platform \<Rightarrow> mem_state \<Rightarrow> addr \<Rightarrow> mem_state option"
    fix cfg s current y
    assume IH: "\<And>cfg s c y. f cfg s c = Some y \<Longrightarrow>
        \<not> (c \<noteq> 0 \<and> blk_next (heap s c) = c \<and> blk_free (heap s c))"
    assume body: "(if current \<noteq> 0 \<and> blk_next (heap s current) \<noteq> 0
         then if blk_free (heap s current) \<and> blk_free (heap s (blk_next (heap s current)))
              then f cfg (merge_next cfg current s) current
              else f cfg s (blk_next (heap s current))
         else Some s) = Some y"
    show "\<not> (current \<noteq> 0 \<and> blk_next (heap s current) = current \<and> blk_free (heap s current))"
    proof
      assume loop: "current \<noteq> 0 \<and> blk_next (heap s current) = current \<and> blk_free (heap s current)"
      with body have "f cfg (merge_next cfg current s) current = Some y" by simp
      from IH [OF this] loop show False
        by (simp add: merge_next_next merge_next_free)
    qed
  qed
  with assms show False by simp
qed

lemma coalesce_loop_skip:
  "cur \<noteq> 0 \<Longrightarrow> blk_next (heap s cur) \<noteq> 0 \<Longrightarrow>
   \<not> (blk_free (heap s cur) \<and> blk_free (heap s (blk_next (heap s cur)))) \<Longrightarrow>
   coalesce_loop cfg s cur = coalesce_loop cfg s (blk_next (heap s cur))"
  by (subst coalesce_loop.simps) auto

lemma block_list_selfloop:
  assumes "c \<noteq> 0" and "blk_next (h c) = c"
  shows "block_list h c = None"
proof (cases "block_list h c")
  case None
  then show ?thesis .
next
  case (Some as)
  have "block_list h c = Option.bind (block_list h c) (\<lambda>as. Some (c # as))"
    using assms by (subst block_list.simps) simp
  with Some have "as = c # as" by simp
  then show ?thesis by simp
qed

lemma block_list_step:
  "p \<noteq> 0 \<Longrightarrow> block_list h p = Option.bind (block_list h (blk_next (h p))) (\<lambda>as. Some (p # as))"
  by (subst block_list.simps) simp

subsection \<open>\<^verbatim>\<open>memory_free\<close> on a finite Block List\<close>

lemma store_free_chain:
  "chain (heap (store_free b v s)) p as = chain (heap s) p as"
  by (rule chain_cong) (simp add: store_free_def)

lemma memory_free_total:
  assumes ch: "chain (heap s) (memory_list s) as"
  shows "\<exists>e s' as'. memory_free cfg p s = Some (e, s') \<and>
     chain (heap s') (memory_list s') as' \<and>
     memory_pools s' = memory_pools s \<and> memory_pool_count s' = memory_pool_count s \<and>
     pool_mem s' = pool_mem s \<and>
     (\<forall>x. blk_free (heap s x) \<longrightarrow> blk_free (heap s' x))"
proof (cases "p = 0 \<or> blk_free (heap s (p - sizeof_MemoryBlock cfg))")
  case True
  with ch show ?thesis by (auto simp: memory_free_def Let_def)
next
  case False
  define b where "b = p - sizeof_MemoryBlock cfg"
  define s1 where "s1 = store_free b True s"
  define s2 where "s2 = s1\<lparr>memory_used := memory_used s1 - (blk_size (heap s1 b) + sizeof_MemoryBlock cfg)\<rparr>"
  define s3 where "s3 = s2\<lparr>memory_free_ctr := memory_free_ctr s2 + (blk_size (heap s2 b) + sizeof_MemoryBlock cfg)\<rparr>"
  have h3: "heap s3 = heap s1" and l3: "memory_list s3 = memory_list s"
    and g3: "memory_pools s3 = memory_pools s" "memory_pool_count s3 = memory_pool_count s"
      "pool_mem s3 = pool_mem s"
    by (simp_all add: s3_def s2_def s1_def store_free_def)
  have ch3: "chain (heap s3) (memory_list s3) as"
    using ch by (simp add: h3 l3 s1_def store_free_chain)
  from coalesce_loop_chain [OF ch3, of cfg] obtain s' as' where
    r: "coalesce_loop cfg s3 (memory_list s3) = Some s'"
    and c: "chain (heap s') (memory_list s3) as'"
    and f: "\<forall>x. blk_free (heap s' x) = blk_free (heap s3 x)"
    and g: "s' = s3\<lparr>heap := heap s', memory_block_count := memory_block_count s'\<rparr>"
    by blast
  note u = mem_state_list_unchanged [OF g]
  have fr: "memory_free cfg p s = Some (ERR_SUCCESS, s')"
    using False r by (simp add: memory_free_def Let_def memory_coalesce_def b_def s1_def s2_def s3_def)
  have "\<forall>x. blk_free (heap s x) \<longrightarrow> blk_free (heap s' x)"
    using f by (simp add: h3 s1_def store_free_def)
  with fr c u g3 show ?thesis by auto
qed

lemma double_free_detected:
  assumes ch: "chain (heap s) (memory_list s) as"
    and p: "p \<noteq> 0" and live: "\<not> blk_free (heap s (p - sizeof_MemoryBlock cfg))"
  shows "\<exists>s'. memory_free cfg p s = Some (ERR_SUCCESS, s') \<and>
     blk_free (heap s' (p - sizeof_MemoryBlock cfg)) \<and>
     memory_free cfg p s' = Some (ERR_GENERIC, s')"
proof -
  define b where "b = p - sizeof_MemoryBlock cfg"
  define s1 where "s1 = store_free b True s"
  define s2 where "s2 = s1\<lparr>memory_used := memory_used s1 - (blk_size (heap s1 b) + sizeof_MemoryBlock cfg)\<rparr>"
  define s3 where "s3 = s2\<lparr>memory_free_ctr := memory_free_ctr s2 + (blk_size (heap s2 b) + sizeof_MemoryBlock cfg)\<rparr>"
  have h3: "heap s3 = heap s1" and l3: "memory_list s3 = memory_list s"
    by (simp_all add: s3_def s2_def s1_def store_free_def)
  have ch3: "chain (heap s3) (memory_list s3) as"
    using ch by (simp add: h3 l3 s1_def store_free_chain)
  from coalesce_loop_chain [OF ch3, of cfg] obtain s' where
    r: "coalesce_loop cfg s3 (memory_list s3) = Some s'"
    and f: "\<forall>x. blk_free (heap s' x) = blk_free (heap s3 x)"
    by blast
  have fr: "memory_free cfg p s = Some (ERR_SUCCESS, s')"
    using p live r by (simp add: memory_free_def Let_def memory_coalesce_def b_def s1_def s2_def s3_def)
  have fl: "blk_free (heap s' (p - sizeof_MemoryBlock cfg))"
    using f by (simp add: h3 s1_def store_free_def b_def)
  then have "memory_free cfg p s' = Some (ERR_GENERIC, s')"
    using p by (simp add: memory_free_def)
  with fr fl show ?thesis by blast
qed

subsection \<open>Requests whose size wraps\<close>

lemma booted_alloc:
  "n \<noteq> 0 \<Longrightarrow> fits cfg32 (align8 n) booted 0x200068 \<Longrightarrow>
   memory_alloc cfg32 n booted = Some (0x200078, snd (split_block cfg32 (align8 n) 0x200068 booted))"
proof -
  assume n: "n \<noteq> 0" and f: "fits cfg32 (align8 n) booted 0x200068"
  have "chain (heap booted) (memory_list booted) [0x100000, 0x100058, 0x200068]"
    by simp
  from memory_alloc_chain [OF this n, of cfg32] f show ?thesis
    by (simp add: fits_def prod_eq_iff split_block_fst)
qed

lemma wrapped_address: "(4297064552 :: u32) = 0x200068"
  by simp

lemma booted_total: "heap_total cfg32 booted = Some 4194304"
  using wf_heap_block_list [OF booted_wf] by (simp add: heap_total_def)

subsection \<open>An allocation followed by a release\<close>

lemma memory_free_live:
  assumes ch: "chain (heap s) (memory_list s) as"
    and p: "p \<noteq> 0" and live: "\<not> blk_free (heap s (p - sizeof_MemoryBlock cfg))"
  shows "\<exists>s'. memory_free cfg p s = Some (ERR_SUCCESS, s') \<and>
     chain (heap s') (memory_list s')
       (map fst (coalesce_list (sizeof_MemoryBlock cfg)
          (view (heap (store_free (p - sizeof_MemoryBlock cfg) True s)) as))) \<and>
     view (heap s')
       (map fst (coalesce_list (sizeof_MemoryBlock cfg)
          (view (heap (store_free (p - sizeof_MemoryBlock cfg) True s)) as))) =
       coalesce_list (sizeof_MemoryBlock cfg)
          (view (heap (store_free (p - sizeof_MemoryBlock cfg) True s)) as) \<and>
     blk_free (heap s' (p - sizeof_MemoryBlock cfg)) \<and>
     memory_list s' = memory_list s \<and> memory_pools s' = memory_pools s \<and>
     memory_pool_count s' = memory_pool_count s \<and> pool_mem s' = pool_mem s \<and>
     memory_total s' = memory_total s \<and>
     memory_used s' =
       memory_used s - (blk_size (heap s (p - sizeof_MemoryBlock cfg)) + sizeof_MemoryBlock cfg) \<and>
     memory_free_ctr s' =
       memory_free_ctr s + (blk_size (heap s (p - sizeof_MemoryBlock cfg)) + sizeof_MemoryBlock cfg) \<and>
     memory_block_count s' + of_nat (length as) =
       memory_block_count s +
       of_nat (length (coalesce_list (sizeof_MemoryBlock cfg)
          (view (heap (store_free (p - sizeof_MemoryBlock cfg) True s)) as)))"
proof -
  define hdr where "hdr = sizeof_MemoryBlock cfg"
  define b where "b = p - hdr"
  define s1 where "s1 = store_free b True s"
  define s2 where "s2 = s1\<lparr>memory_used := memory_used s1 - (blk_size (heap s1 b) + hdr)\<rparr>"
  define s3 where "s3 = s2\<lparr>memory_free_ctr := memory_free_ctr s2 + (blk_size (heap s2 b) + hdr)\<rparr>"
  define R where "R = coalesce_list hdr (view (heap s1) as)"
  have h3: "heap s3 = heap s1" and l3: "memory_list s3 = memory_list s"
    and g3: "memory_pools s3 = memory_pools s" "memory_pool_count s3 = memory_pool_count s"
      "pool_mem s3 = pool_mem s" "memory_total s3 = memory_total s"
      "memory_block_count s3 = memory_block_count s"
    and u3: "memory_used s3 = memory_used s - (blk_size (heap s b) + hdr)"
    and f3: "memory_free_ctr s3 = memory_free_ctr s + (blk_size (heap s b) + hdr)"
    by (simp_all add: s3_def s2_def s1_def store_free_def)
  have ch3: "chain (heap s3) (memory_list s3) as"
    using ch by (simp add: h3 l3 s1_def store_free_chain)
  from coalesce_loop_chain [OF ch3, of cfg] obtain s' where
    r: "coalesce_loop cfg s3 (memory_list s3) = Some s'"
    and c: "chain (heap s') (memory_list s3) (map fst R)"
    and v: "view (heap s') (map fst R) = R"
    and f: "\<forall>x. blk_free (heap s' x) = blk_free (heap s3 x)"
    and n: "memory_block_count s' + of_nat (length as) = memory_block_count s3 + of_nat (length R)"
    and g: "s' = s3\<lparr>heap := heap s', memory_block_count := memory_block_count s'\<rparr>"
    unfolding R_def hdr_def h3 by blast
  note u = mem_state_list_unchanged [OF g]
  have fr: "memory_free cfg p s = Some (ERR_SUCCESS, s')"
    using p live r
    by (simp add: memory_free_def Let_def memory_coalesce_def b_def s1_def s2_def s3_def hdr_def)
  have fl: "blk_free (heap s' b)"
    using f by (simp add: h3 s1_def store_free_def)
  from fr c v fl u l3 g3 u3 f3 n show ?thesis
    unfolding R_def s1_def b_def hdr_def by simp
qed

lemma memory_alloc_failure:
  assumes wf: "wf_heap cfg s as" and r: "memory_alloc cfg n s = Some (0, s')"
  shows "s' = s"
proof (cases "n = 0")
  case True
  with r show ?thesis by (simp add: memory_alloc_def)
next
  case False
  show ?thesis
  proof (cases "find (fits cfg (align8 n) s) as")
    case None
    with memory_alloc_chain [OF wf_heap_chain [OF wf] False, of cfg] r show ?thesis by simp
  next
    case (Some c)
    with memory_alloc_chain [OF wf_heap_chain [OF wf] False, of cfg] r
    have z: "c + sizeof_MemoryBlock cfg = 0"
      by (simp add: prod_eq_iff split_block_fst)
    from Some have "c \<in> set as" by (auto dest: find_decomp)
    from wf_heap_addr_bounds [OF wf this]
    have "unat c + unat (sizeof_MemoryBlock cfg) < 2 ^ LENGTH(32)" and "0 < unat (sizeof_MemoryBlock cfg)"
      by simp_all
    then have "unat (c + sizeof_MemoryBlock cfg) \<noteq> 0" by (simp only: unat_add_lem)
    with z show ?thesis by simp
  qed
qed

lemma memory_alloc_success:
  assumes wf: "wf_heap cfg s as"
    and nowrap: "unat (align8 n) + unat (sizeof_MemoryBlock cfg) < 2 ^ 32"
    and r: "memory_alloc cfg n s = Some (p, s')" and ok: "p \<noteq> 0"
  shows "\<exists>pre c post. as = pre @ c # post \<and> p = c + sizeof_MemoryBlock cfg \<and>
     blk_free (heap s c) \<and> s' = snd (split_block cfg (align8 n) c s) \<and>
     wf_heap cfg s' (pre @ c # (c + sizeof_MemoryBlock cfg + align8 n) # post) \<and>
     view (heap s') (pre @ c # (c + sizeof_MemoryBlock cfg + align8 n) # post) =
       view (heap s) pre @
       [(c, align8 n, False),
        (c + sizeof_MemoryBlock cfg + align8 n,
         blk_size (heap s c) - align8 n - sizeof_MemoryBlock cfg, True)] @
       view (heap s) post"
proof -
  from r ok have n: "n \<noteq> 0" by (auto simp: memory_alloc_def)
  note m = memory_alloc_chain [OF wf_heap_chain [OF wf] n, of cfg]
  from m r ok obtain c where fc: "find (fits cfg (align8 n) s) as = Some c"
    by (cases "find (fits cfg (align8 n) s) as") auto
  with m r have p: "p = c + sizeof_MemoryBlock cfg" and s': "s' = snd (split_block cfg (align8 n) c s)"
    by (simp_all add: prod_eq_iff split_block_fst)
  from find_decomp [OF fc] obtain pre post where
    as: "as = pre @ c # post" and fit: "fits cfg (align8 n) s c" by blast
  from fit have fr: "blk_free (heap s c)"
    and nf: "unat (align8 n) + unat (sizeof_MemoryBlock cfg) \<le> unat (blk_size (heap s c))"
    by (simp_all add: fits_nat [OF nowrap])
  from wf have pos: "0 < sizeof_MemoryBlock cfg"
    and ch: "chain (heap s) (memory_list s) (pre @ c # post)"
    and lay: "layout cfg (view (heap s) (pre @ c # post)) (unat heap_start) (unat heap_start + unat heap_size)"
    by (simp_all add: wf_heap_def as)
  have hi: "unat heap_start + unat heap_size \<le> 2 ^ 32" by (simp add: arena_end)
  have lo: "0 < unat heap_start" by (simp add: arena_start)
  note sv = split_view [OF pos ch lay hi lo nf]
  have w: "wf_heap cfg s' (pre @ c # (c + sizeof_MemoryBlock cfg + align8 n) # post)"
    unfolding s' using wf [unfolded as] nf by (rule wf_split)
  from as p fr s' w sv(2) show ?thesis unfolding s' by blast
qed

lemma no_adjacent_free_append:
  "no_adjacent_free (xs @ ys) \<Longrightarrow> no_adjacent_free xs \<and> no_adjacent_free ys"
proof (induction xs rule: no_adjacent_free.induct)
  case 1
  then show ?case by simp
next
  case (2 b)
  then show ?case
  proof (cases ys)
    case Nil
    then show ?thesis by simp
  next
    case (Cons y ys')
    obtain a sa fa where "b = (a, sa, fa)" by (cases b)
    moreover obtain c sc fc where "y = (c, sc, fc)" by (cases y)
    ultimately show ?thesis using 2 Cons by simp
  qed
next
  case (3 a sa fa b sb fb bs)
  then show ?case by simp
qed

lemma no_adjacent_free_around:
  "no_adjacent_free (xs @ (c, cs, True) # ys) \<Longrightarrow>
   (xs = [] \<or> \<not> snd (snd (last xs))) \<and> (ys = [] \<or> \<not> snd (snd (hd ys)))"
proof (induction xs rule: no_adjacent_free.induct)
  case 1
  then show ?case
  proof (cases ys)
    case Nil
    then show ?thesis by simp
  next
    case (Cons y ys')
    obtain a sa fa where "y = (a, sa, fa)" by (cases y)
    with 1 Cons show ?thesis by simp
  qed
next
  case (2 b)
  obtain a sa fa where b: "b = (a, sa, fa)" by (cases b)
  with 2 have "\<not> fa" and "no_adjacent_free ([] @ (c, cs, True) # ys)" by simp_all
  moreover have "no_adjacent_free ([] @ (c, cs, True) # ys) \<Longrightarrow> ys = [] \<or> \<not> snd (snd (hd ys))"
  proof (cases ys)
    case Nil
    then show ?thesis by simp
  next
    case (Cons y ys')
    obtain a' sa' fa' where "y = (a', sa', fa')" by (cases y)
    with Cons show "no_adjacent_free ([] @ (c, cs, True) # ys) \<Longrightarrow> ?thesis" by simp
  qed
  ultimately show ?case using b by simp
next
  case (3 a sa fa b sb fb bs)
  then show ?case by simp
qed

lemma view_store_free:
  "c \<notin> set as \<Longrightarrow> view (heap (store_free c v s)) as = view (heap s) as"
  by (simp add: view_def store_free_def)

lemma alloc_then_free:
  assumes wf: "wf_heap cfg s as"
    and nowrap: "unat (align8 n) + unat (sizeof_MemoryBlock cfg) < 2 ^ 32"
    and r: "memory_alloc cfg n s = Some (p, s1)" and ok: "p \<noteq> 0"
  shows "\<exists>s'. memory_free cfg p s1 = Some (ERR_SUCCESS, s') \<and>
     blk_free (heap s' (p - sizeof_MemoryBlock cfg)) \<and>
     memory_pools s' = memory_pools s \<and> memory_pool_count s' = memory_pool_count s \<and>
     pool_mem s' = pool_mem s \<and>
     memory_used s' = memory_used s \<and> memory_free_ctr s' = memory_free_ctr s \<and>
     (no_adjacent_free (view (heap s) as) \<longrightarrow>
        block_list (heap s') (memory_list s') = Some as \<and>
        view (heap s') as = view (heap s) as \<and>
        memory_block_count s' = memory_block_count s)"
proof -
  define hdr where "hdr = sizeof_MemoryBlock cfg"
  define sz where "sz = align8 n"
  from memory_alloc_success [OF wf nowrap r ok] obtain pre c post where
    as: "as = pre @ c # post" and p: "p = c + hdr" and fr: "blk_free (heap s c)"
    and s1: "s1 = snd (split_block cfg sz c s)"
    and w1: "wf_heap cfg s1 (pre @ c # (c + hdr + sz) # post)"
    and v1: "view (heap s1) (pre @ c # (c + hdr + sz) # post) =
       view (heap s) pre @
       [(c, sz, False), (c + hdr + sz, blk_size (heap s c) - sz - hdr, True)] @
       view (heap s) post"
    unfolding hdr_def sz_def by blast
  define nb where "nb = c + hdr + sz"
  define cs where "cs = blk_size (heap s c)"
  have pc: "p - sizeof_MemoryBlock cfg = c" by (simp add: p hdr_def)
  have ch1: "chain (heap s1) (memory_list s1) (pre @ c # nb # post)"
    using w1 by (simp add: wf_heap_def nb_def)
  from ch1 have d: "distinct (pre @ c # nb # post)" by (rule chain_distinct)
  have live: "\<not> blk_free (heap s1 (p - sizeof_MemoryBlock cfg))"
    by (simp add: pc s1 split_block_current)
  have sz1: "blk_size (heap s1 c) = sz" by (simp add: s1 split_block_current)
  from v1 have vpre: "view (heap s1) pre = view (heap s) pre"
    and vnb: "blk_size (heap s1 nb) = cs - sz - hdr" "blk_free (heap s1 nb)"
    and vpost: "view (heap s1) post = view (heap s) post"
    by (simp_all add: nb_def cs_def)
  define V where "V = view (heap (store_free c True s1)) (pre @ c # nb # post)"
  have V: "V = view (heap s) pre @ [(c, sz, True), (nb, cs - sz - hdr, True)] @ view (heap s) post"
  proof -
    from d have "c \<notin> set pre" "c \<notin> set post" "nb \<noteq> c" by auto
    then show ?thesis
      unfolding V_def
      by (simp add: view_store_free vpre vpost) (simp add: store_free_def sz1 vnb)
  qed
  from memory_free_live [OF ch1 ok live, unfolded pc, folded V_def hdr_def] obtain s' where
    f: "memory_free cfg p s1 = Some (ERR_SUCCESS, s')"
    and c': "chain (heap s') (memory_list s') (map fst (coalesce_list hdr V))"
    and v': "view (heap s') (map fst (coalesce_list hdr V)) = coalesce_list hdr V"
    and fl: "blk_free (heap s' c)"
    and g: "memory_pools s' = memory_pools s1" "memory_pool_count s' = memory_pool_count s1"
      "pool_mem s' = pool_mem s1"
    and u: "memory_used s' = memory_used s1 - (blk_size (heap s1 c) + hdr)"
    and fc: "memory_free_ctr s' = memory_free_ctr s1 + (blk_size (heap s1 c) + hdr)"
    and n: "memory_block_count s' + of_nat (length (pre @ c # nb # post)) =
       memory_block_count s1 + of_nat (length (coalesce_list hdr V))"
    by blast
  have g': "memory_pools s' = memory_pools s" "memory_pool_count s' = memory_pool_count s"
      "pool_mem s' = pool_mem s"
    using g by (simp_all add: s1 split_block_globals)
  have u': "memory_used s' = memory_used s" "memory_free_ctr s' = memory_free_ctr s"
    using u fc by (simp_all add: sz1) (simp_all add: s1 split_block_globals hdr_def)
  have rest: "block_list (heap s') (memory_list s') = Some as \<and>
        view (heap s') as = view (heap s) as \<and>
        memory_block_count s' = memory_block_count s"
    if na: "no_adjacent_free (view (heap s) as)"
  proof -
    have vs: "view (heap s) as = view (heap s) pre @ (c, cs, True) # view (heap s) post"
      using fr by (simp add: as cs_def)
    from na [unfolded vs] have na1: "no_adjacent_free (view (heap s) pre)"
      and na2: "no_adjacent_free ((c, cs, True) # view (heap s) post)"
      by (auto dest: no_adjacent_free_append)
    from na2 have na3: "no_adjacent_free (view (heap s) post)"
      using no_adjacent_free_append [of "[(c, cs, True)]" "view (heap s) post"] by simp
    from no_adjacent_free_around [OF na [unfolded vs]]
    have bl: "view (heap s) pre = [] \<or> \<not> snd (snd (last (view (heap s) pre)))"
      and br: "view (heap s) post = [] \<or> \<not> snd (snd (hd (view (heap s) post)))"
      by simp_all
    have "coalesce_list hdr V =
        coalesce_list hdr (view (heap s) pre) @
        coalesce_list hdr ((c, sz, True) # [(nb, cs - sz - hdr, True)] @ view (heap s) post)"
      unfolding V using coalesce_list_barrier [OF bl] by simp
    also have "coalesce_list hdr ((c, sz, True) # [(nb, cs - sz - hdr, True)] @ view (heap s) post) =
        (c, sz + sum_list (map (fst \<circ> snd) [(nb, cs - sz - hdr, True)])
              + of_nat (length [(nb, cs - sz - hdr, True)]) * hdr, True)
          # coalesce_list hdr (view (heap s) post)"
      using _ br by (rule coalesce_list_run) simp
    finally have R: "coalesce_list hdr V = view (heap s) as"
      by (simp add: vs coalesce_list_fixed [OF na1] coalesce_list_fixed [OF na3])
    from c' have "block_list (heap s') (memory_list s') = Some as"
      by (simp add: R block_list_chain)
    moreover from v' have "view (heap s') as = view (heap s) as" by (simp add: R)
    moreover from n have "memory_block_count s' = memory_block_count s"
      by (simp add: R as s1 split_block_globals)
    ultimately show ?thesis by blast
  qed
  from f fl g' u' rest show ?thesis unfolding pc by blast
qed

lemma first_alloc_heap:
  "heap (snd (split_block cfg32 72 0x200068 booted)) 0x100000 = heap booted 0x100000"
  "heap (snd (split_block cfg32 72 0x200068 booted)) 0x100058 = heap booted 0x100058"
  "heap (snd (split_block cfg32 72 0x200068 booted)) 0x200068 =
     \<lparr>blk_size = 72, blk_free = False, blk_next = 0x2000C0, blk_prev = 0x100058\<rparr>"
  "heap (snd (split_block cfg32 72 0x200068 booted)) 0x2000C0 =
     \<lparr>blk_size = 0x2FFF30, blk_free = True, blk_next = 0, blk_prev = 0x200068\<rparr>"
  "memory_list (snd (split_block cfg32 72 0x200068 booted)) = 0x100000"
  by (simp_all add: split_block_def Let_def store_size_def store_free_def store_next_def store_prev_def
      ram0_def)

subsection \<open>The pool registry\<close>


lemma booted_pool [simp]:
  "pool_mem booted 0x100010 = new_pool cfg32 0 ''default'' MEM_POOL_DEFAULT 0x100068 0x100000"
  "memory_pools booted = 0x100010 # replicate 15 0" "memory_pool_count booted = 1"
  by (simp_all add: booted_def)







lemma alloc_scan_result:
  assumes "alloc_scan cfg sz s cur = Some y"
  shows "y = (0, s) \<or> (\<exists>c. y = split_block cfg sz c s \<and> fits cfg sz s c)"
proof (rule alloc_scan.raw_induct
    [where P = "\<lambda>cfg sz s cur y. y = (0, s) \<or> (\<exists>c. y = split_block cfg sz c s \<and> fits cfg sz s c)",
      OF _ assms])
  fix f :: "platform \<Rightarrow> u32 \<Rightarrow> mem_state \<Rightarrow> addr \<Rightarrow> (addr \<times> mem_state) option"
  fix cfg sz s current y
  assume IH: "\<And>cfg sz s cur y. f cfg sz s cur = Some y \<Longrightarrow>
      y = (0, s) \<or> (\<exists>c. y = split_block cfg sz c s \<and> fits cfg sz s c)"
  assume body: "(if current = 0 then Some (0, s)
       else if fits cfg sz s current then Some (split_block cfg sz current s)
            else f cfg sz s (blk_next (heap s current))) = Some y"
  show "y = (0, s) \<or> (\<exists>c. y = split_block cfg sz c s \<and> fits cfg sz s c)"
  proof (cases "current = 0")
    case True
    with body show ?thesis by simp
  next
    case False
    show ?thesis
    proof (cases "fits cfg sz s current")
      case True
      with body False show ?thesis by auto
    next
      case nf: False
      with body False have "f cfg sz s (blk_next (heap s current)) = Some y" by simp
      then show ?thesis by (rule IH)
    qed
  qed
qed




lemma alloc_wrapped: "memory_alloc cfg32 0xFFFFFFF0 booted = Some (0x200078, wrapped)"
proof -
  have a: "align8 0xFFFFFFF0 = 0xFFFFFFF0" by (simp add: align8_def)
  have "snd (split_block cfg32 0xFFFFFFF0 0x200068 booted) = wrapped"
    apply (simp add: split_block_def Let_def store_size_def store_free_def store_next_def
        store_prev_def wrapped_address)
    apply (auto simp add: wrapped_def booted_def fun_eq_iff)
    done
  with booted_alloc [of "0xFFFFFFF0"] show ?thesis by (simp add: a fits_def)
qed

lemma alloc_zero_sized: "memory_alloc cfg32 0xFFFFFFFF booted = Some (0x200078, zero_sized)"
proof -
  have a: "align8 0xFFFFFFFF = 0" by (simp add: align8_def)
  have "snd (split_block cfg32 0 0x200068 booted) = zero_sized"
    apply (simp add: split_block_def Let_def store_size_def store_free_def store_next_def
        store_prev_def)
    apply (auto simp add: zero_sized_def booted_def fun_eq_iff)
    done
  with booted_alloc [of "0xFFFFFFFF"] show ?thesis by (simp add: a fits_def)
qed

lemma wrapped_blocks [simp]:
  "heap wrapped 0x100000 = heap booted 0x100000"
  "heap wrapped 0x100058 = heap booted 0x100058"
  "heap wrapped 0x200068 =
     \<lparr>blk_size = 0xFFFFFFF0, blk_free = False, blk_next = 0x200068, blk_prev = 0x200068\<rparr>"
  "memory_list wrapped = 0x100000"
  by (simp_all add: wrapped_def)

subsection \<open>Runs of requests\<close>

lemma wf_heap_total: "wf_heap cfg s as \<Longrightarrow> heap_total cfg s = Some 4194304"
proof -
  assume wf: "wf_heap cfg s as"
  then have lay: "layout cfg (view (heap s) as) (unat heap_start) (unat heap_start + unat heap_size)"
    by (simp add: wf_heap_def)
  from layout_view_total [OF this]
  have "sum_list (map (\<lambda>a. unat (blk_size (heap s a))) as) + length as * unat (sizeof_MemoryBlock cfg)
      = unat heap_size"
    by simp
  then have "sum_list (map (\<lambda>a. unat (blk_size (heap s a)) + unat (sizeof_MemoryBlock cfg)) as) = 4194304"
    by (simp add: sum_list_plus_const heap_size_def MB_def)
  with wf_heap_block_list [OF wf] show ?thesis by (simp add: heap_total_def)
qed

lemma layout_store_free:
  "layout cfg (view (heap (store_free b v s)) as) lo hi = layout cfg (view (heap s) as) lo hi"
  by (induction as arbitrary: lo) (simp_all add: store_free_def)

lemma memory_free_wf:
  assumes wf: "wf_heap cfg s as"
  shows "\<exists>e s' as'. memory_free cfg p s = Some (e, s') \<and> wf_heap cfg s' as'"
proof (cases "p = 0 \<or> blk_free (heap s (p - sizeof_MemoryBlock cfg))")
  case True
  with wf show ?thesis by (auto simp: memory_free_def Let_def)
next
  case False
  define b where "b = p - sizeof_MemoryBlock cfg"
  define s1 where "s1 = store_free b True s"
  define s2 where "s2 = s1\<lparr>memory_used := memory_used s1 - (blk_size (heap s1 b) + sizeof_MemoryBlock cfg)\<rparr>"
  define s3 where "s3 = s2\<lparr>memory_free_ctr := memory_free_ctr s2 + (blk_size (heap s2 b) + sizeof_MemoryBlock cfg)\<rparr>"
  have h3: "heap s3 = heap s1" and l3: "memory_list s3 = memory_list s"
    by (simp_all add: s3_def s2_def s1_def store_free_def)
  have "wf_heap cfg s3 as"
    using wf by (simp add: wf_heap_def h3 l3 s1_def store_free_chain layout_store_free)
  from memory_coalesce_wf [OF this] obtain s' as' where
    r: "memory_coalesce cfg s3 = Some s'" and w: "wf_heap cfg s' as'"
    by blast
  have "memory_free cfg p s = Some (ERR_SUCCESS, s')"
    using False r by (simp add: memory_free_def Let_def b_def s1_def s2_def s3_def)
  with w show ?thesis by blast
qed

lemma memory_alloc_wf:
  assumes wf: "wf_heap cfg s as"
    and nowrap: "unat (align8 n) + unat (sizeof_MemoryBlock cfg) < 2 ^ 32"
  shows "\<exists>p s' as'. memory_alloc cfg n s = Some (p, s') \<and> wf_heap cfg s' as'"
proof (cases "n = 0")
  case True
  with wf show ?thesis by (auto simp: memory_alloc_def)
next
  case False
  from memory_alloc_chain [OF wf_heap_chain [OF wf] False, of cfg]
  have "\<exists>y. memory_alloc cfg n s = Some y"
    by (cases "find (fits cfg (align8 n) s) as") auto
  then obtain p s' where r: "memory_alloc cfg n s = Some (p, s')"
    by (metis surj_pair)
  show ?thesis
  proof (cases "p = 0")
    case True
    with memory_alloc_failure [OF wf] r wf show ?thesis by blast
  next
    case False
    from memory_alloc_success [OF wf nowrap r False] r show ?thesis by blast
  qed
qed

lemma heap_total_along_runs:
  assumes "wf_heap cfg s as"
    and "\<forall>n. Alloc n \<in> set rs \<longrightarrow> unat (align8 n) + unat (sizeof_MemoryBlock cfg) < 2 ^ 32"
  shows "\<exists>s' as'. run_requests cfg rs s = Some s' \<and> wf_heap cfg s' as' \<and>
     heap_total cfg s' = Some 4194304"
  using assms
proof (induction rs arbitrary: s as)
  case Nil
  then show ?case using wf_heap_total by auto
next
  case (Cons r rs)
  show ?case
  proof (cases r)
    case (Alloc n)
    with Cons.prems(2) have nowrap: "unat (align8 n) + unat (sizeof_MemoryBlock cfg) < 2 ^ 32"
      by simp
    from memory_alloc_wf [OF Cons.prems(1) nowrap] obtain p s1 as1 where
      a: "memory_alloc cfg n s = Some (p, s1)" and w: "wf_heap cfg s1 as1"
      by blast
    from Cons.prems(2) have "\<forall>n. Alloc n \<in> set rs \<longrightarrow>
        unat (align8 n) + unat (sizeof_MemoryBlock cfg) < 2 ^ 32"
      by simp
    from Cons.IH [OF w this] a Alloc show ?thesis by simp
  next
    case (Free p)
    from memory_free_wf [OF Cons.prems(1), of p] obtain e s1 as1 where
      f: "memory_free cfg p s = Some (e, s1)" and w: "wf_heap cfg s1 as1"
      by blast
    from Cons.prems(2) have "\<forall>n. Alloc n \<in> set rs \<longrightarrow>
        unat (align8 n) + unat (sizeof_MemoryBlock cfg) < 2 ^ 32"
      by simp
    from Cons.IH [OF w this] f Free show ?thesis by simp
  qed
qed

lemma release_twice:
  assumes wf: "wf_heap cfg s as"
    and nowrap: "unat (align8 n) + unat (sizeof_MemoryBlock cfg) < 2 ^ 32"
    and r: "memory_alloc cfg n s = Some (p, s1)" and ok: "p \<noteq> 0"
  shows "\<exists>s2. memory_free cfg p s1 = Some (ERR_SUCCESS, s2) \<and>
     blk_free (heap s2 (p - sizeof_MemoryBlock cfg)) \<and>
     memory_free cfg p s2 = Some (ERR_GENERIC, s2)"
proof -
  from memory_alloc_success [OF wf nowrap r ok] obtain pre c post where
    p: "p = c + sizeof_MemoryBlock cfg" and s1: "s1 = snd (split_block cfg (align8 n) c s)"
    and w1: "wf_heap cfg s1 (pre @ c # (c + sizeof_MemoryBlock cfg + align8 n) # post)"
    by blast
  have "\<not> blk_free (heap s1 (p - sizeof_MemoryBlock cfg))"
    by (simp add: p s1 split_block_current)
  with wf_heap_chain [OF w1] ok show ?thesis by (rule double_free_detected)
qed

lemma granted_payload:
  assumes r: "memory_alloc cfg n s = Some (p, s')" and ok: "p \<noteq> 0"
    and small: "unat n \<le> 4294967288"
  shows "unat n \<le> unat (blk_size (heap s' (p - sizeof_MemoryBlock cfg)))"
proof -
  from r ok have n: "n \<noteq> 0" by (auto simp: memory_alloc_def)
  with r have "alloc_scan cfg (align8 n) s (memory_list s) = Some (p, s')"
    by (simp add: memory_alloc_def)
  from alloc_scan_result [OF this] ok obtain c where
    e: "(p, s') = split_block cfg (align8 n) c s" by auto
  then have "p = fst (split_block cfg (align8 n) c s)" and "s' = snd (split_block cfg (align8 n) c s)"
    by (metis fst_conv, metis snd_conv)
  then have "blk_size (heap s' (p - sizeof_MemoryBlock cfg)) = align8 n"
    by (simp add: split_block_fst split_block_current)
  with align8_ge [OF small] show ?thesis by simp
qed

lemma booted_block_list:
  "block_list (heap booted) (memory_list booted) = Some [0x100000, 0x100058, 0x200068]"
  using booted_wf by (rule wf_heap_block_list)

lemma wrapped_cyclic: "block_list (heap wrapped) (memory_list wrapped) = None"
proof -
  have "block_list (heap wrapped) 0x200068 = None"
    by (rule block_list_selfloop) simp_all
  then have "block_list (heap wrapped) 0x100058 = None"
    by (subst block_list_step) simp_all
  then show ?thesis
    by (simp add: block_list_step [of "0x100000"])
qed

subsection \<open>Requests that do not wrap\<close>

lemma first_fit_without_wrap:
  assumes wf: "wf_heap cfg s as" and n: "n \<noteq> 0"
    and small: "unat n \<le> 4294967288"
    and nowrap: "unat (align8 n) + unat (sizeof_MemoryBlock cfg) < 2 ^ 32"
  shows "sorted_wrt (<) (map unat as) \<and>
         unat (align8 n) = 8 * ((unat n + 7) div 8) \<and>
         memory_alloc cfg n s =
           (case find (\<lambda>a. blk_free (heap s a) \<and>
                          unat (align8 n) + unat (sizeof_MemoryBlock cfg) \<le> unat (blk_size (heap s a))) as of
              None \<Rightarrow> Some (0, s)
            | Some c \<Rightarrow>
                Some (c + sizeof_MemoryBlock cfg, snd (split_block cfg (align8 n) c s)))"
proof (intro conjI)
  show "sorted_wrt (<) (map unat as)" using wf by (rule wf_heap_ascending)
  show "unat (align8 n) = 8 * ((unat n + 7) div 8)" using small by (rule align8_small)
  have "fits cfg (align8 n) s =
      (\<lambda>a. blk_free (heap s a) \<and>
            unat (align8 n) + unat (sizeof_MemoryBlock cfg) \<le> unat (blk_size (heap s a)))"
    by (rule ext) (rule fits_nat [OF nowrap])
  with memory_alloc_chain [OF wf_heap_chain [OF wf] n, of cfg]
  show "memory_alloc cfg n s =
           (case find (\<lambda>a. blk_free (heap s a) \<and>
                          unat (align8 n) + unat (sizeof_MemoryBlock cfg) \<le> unat (blk_size (heap s a))) as of
              None \<Rightarrow> Some (0, s)
            | Some c \<Rightarrow>
                Some (c + sizeof_MemoryBlock cfg, snd (split_block cfg (align8 n) c s)))"
    by (simp add: prod_eq_iff split_block_fst split: option.split)
qed

lemma first_fit_on_booted:
  "memory_alloc cfg32 100 booted = Some (0x200078, snd (split_block cfg32 104 0x200068 booted)) \<and>
   memory_alloc cfg32 0x300000 booted = Some (0, booted)"
proof -
  have a: "align8 100 = 104" "align8 0x300000 = 0x300000" by (simp_all add: align8_def)
  have n: "(100::u32) \<noteq> 0" "(0x300000::u32) \<noteq> 0" by simp_all
  have sm: "unat (100::u32) \<le> 4294967288" "unat (0x300000::u32) \<le> 4294967288" by simp_all
  have nw: "unat (align8 100) + unat (sizeof_MemoryBlock cfg32) < 2 ^ 32"
    "unat (align8 0x300000) + unat (sizeof_MemoryBlock cfg32) < 2 ^ 32"
    by (simp_all add: a)
  from first_fit_without_wrap [OF booted_wf n(1) sm(1) nw(1)]
    first_fit_without_wrap [OF booted_wf n(2) sm(2) nw(2)]
  show ?thesis by (simp add: a)
qed

lemma split_without_wrap:
  assumes wf: "wf_heap cfg s (pre @ c # post)"
    and n: "n \<noteq> 0"
    and nowrap: "unat (align8 n) + unat (sizeof_MemoryBlock cfg) < 2 ^ 32"
    and first: "\<forall>a \<in> set pre. \<not> fits cfg (align8 n) s a"
    and fit: "fits cfg (align8 n) s c"
  shows "\<exists>s'. memory_alloc cfg n s = Some (c + sizeof_MemoryBlock cfg, s') \<and>
      c + sizeof_MemoryBlock cfg \<noteq> 0 \<and>
      memory_block_count s' = memory_block_count s + 1 \<and>
      \<not> blk_free (heap s' c) \<and> blk_size (heap s' c) = align8 n \<and>
      wf_heap cfg s' (pre @ c # (c + sizeof_MemoryBlock cfg + align8 n) # post) \<and>
      block_list (heap s') (memory_list s') =
        Some (pre @ c # (c + sizeof_MemoryBlock cfg + align8 n) # post) \<and>
      view (heap s') (pre @ c # (c + sizeof_MemoryBlock cfg + align8 n) # post) =
        view (heap s) pre @
        [(c, align8 n, False),
         (c + sizeof_MemoryBlock cfg + align8 n,
          blk_size (heap s c) - align8 n - sizeof_MemoryBlock cfg, True)] @
        view (heap s) post \<and>
      unat (blk_size (heap s c) - align8 n - sizeof_MemoryBlock cfg) =
        unat (blk_size (heap s c)) - unat (align8 n) - unat (sizeof_MemoryBlock cfg) \<and>
      blk_prev (heap s' (c + sizeof_MemoryBlock cfg + align8 n)) = c \<and>
      (post \<noteq> [] \<longrightarrow>
         blk_prev (heap s' (hd post)) = c + sizeof_MemoryBlock cfg + align8 n)"
proof -
  define s' where "s' = snd (split_block cfg (align8 n) c s)"
  from wf have pos: "0 < sizeof_MemoryBlock cfg"
    and ch: "chain (heap s) (memory_list s) (pre @ c # post)"
    and lay: "layout cfg (view (heap s) (pre @ c # post)) (unat heap_start) (unat heap_start + unat heap_size)"
    by (simp_all add: wf_heap_def)
  have hi: "unat heap_start + unat heap_size \<le> 2 ^ 32" by (simp add: arena_end)
  have lo: "0 < unat heap_start" by (simp add: arena_start)
  from fit have nf: "unat (align8 n) + unat (sizeof_MemoryBlock cfg) \<le> unat (blk_size (heap s c))"
    by (simp add: fits_nat [OF nowrap])
  from first fit have "find (fits cfg (align8 n) s) (pre @ c # post) = Some c"
    by (rule find_first)
  with memory_alloc_chain [OF ch n, of cfg]
  have r: "memory_alloc cfg n s = Some (c + sizeof_MemoryBlock cfg, s')"
    by (simp add: s'_def prod_eq_iff split_block_fst)
  have "c \<in> set (pre @ c # post)" by simp
  from wf_heap_addr_bounds [OF wf this]
  have "unat c + unat (sizeof_MemoryBlock cfg) < 2 ^ LENGTH(32)" and "0 < unat (sizeof_MemoryBlock cfg)"
    by simp_all
  then have "unat (c + sizeof_MemoryBlock cfg) \<noteq> 0" by (simp only: unat_add_lem)
  then have p0: "c + sizeof_MemoryBlock cfg \<noteq> 0" by auto
  have cnt: "memory_block_count s' = memory_block_count s + 1"
    by (simp add: s'_def split_block_globals)
  have cur: "\<not> blk_free (heap s' c)" "blk_size (heap s' c) = align8 n"
    by (simp_all add: s'_def split_block_current)
  note sv = split_view [OF pos ch lay hi lo nf]
  have w: "wf_heap cfg s' (pre @ c # (c + sizeof_MemoryBlock cfg + align8 n) # post)"
    unfolding s'_def using wf nf by (rule wf_split)
  from w have bl: "block_list (heap s') (memory_list s') =
         Some (pre @ c # (c + sizeof_MemoryBlock cfg + align8 n) # post)"
    by (rule wf_heap_block_list)
  note lk = split_block_links [OF ch sv(1)]
  from w bl sv(2) sv(5) lk have big:
    "wf_heap cfg s' (pre @ c # (c + sizeof_MemoryBlock cfg + align8 n) # post) \<and>
     block_list (heap s') (memory_list s') =
       Some (pre @ c # (c + sizeof_MemoryBlock cfg + align8 n) # post) \<and>
     view (heap s') (pre @ c # (c + sizeof_MemoryBlock cfg + align8 n) # post) =
       view (heap s) pre @
       [(c, align8 n, False),
        (c + sizeof_MemoryBlock cfg + align8 n,
         blk_size (heap s c) - align8 n - sizeof_MemoryBlock cfg, True)] @
       view (heap s) post \<and>
     unat (blk_size (heap s c) - align8 n - sizeof_MemoryBlock cfg) =
       unat (blk_size (heap s c)) - unat (align8 n) - unat (sizeof_MemoryBlock cfg) \<and>
     blk_prev (heap s' (c + sizeof_MemoryBlock cfg + align8 n)) = c \<and>
     (post \<noteq> [] \<longrightarrow>
        blk_prev (heap s' (hd post)) = c + sizeof_MemoryBlock cfg + align8 n)"
    unfolding s'_def by blast
  from r p0 cnt cur big show ?thesis by blast
qed

lemma exact_fit_on_booted:
  "\<exists>s'. memory_alloc cfg32 0x2FFF78 booted = Some (0x200078, s') \<and>
      memory_block_count s' = 4 \<and>
      block_list (heap s') (memory_list s') = Some [0x100000, 0x100058, 0x200068, 0x4FFFF0] \<and>
      view (heap s') [0x200068, 0x4FFFF0] = [(0x200068, 0x2FFF78, False), (0x4FFFF0, 0, True)]"
proof -
  have a: "align8 0x2FFF78 = 0x2FFF78" by (simp add: align8_def)
  have w: "wf_heap cfg32 booted ([0x100000, 0x100058] @ 0x200068 # [])"
    using booted_wf by simp
  have n: "(0x2FFF78 :: u32) \<noteq> 0" by simp
  have nw: "unat (align8 0x2FFF78) + unat (sizeof_MemoryBlock cfg32) < 2 ^ 32" by (simp add: a)
  have f1: "\<forall>a \<in> set [0x100000, 0x100058]. \<not> fits cfg32 (align8 0x2FFF78) booted a"
    by (simp add: a fits_def)
  have f2: "fits cfg32 (align8 0x2FFF78) booted 0x200068"
    by (simp add: a fits_def)
  have c: "memory_block_count booted = 3" by (simp add: booted_def)
  from split_without_wrap [OF w n nw f1 f2] show ?thesis
    by (auto simp add: a c view_def)
qed

section \<open>Claims\<close>

text \<open>
  C1. The specification asks that payload size plus header size, summed over the Block List, is the
  arena size after every sequence of calls that starts with \<^verbatim>\<open>memory_init\<close>. It
  holds along every run in which no request wraps (lemma \<open>heap_total_along_runs\<close>).
  The theorem runs \<^verbatim>\<open>memory_init\<close> on the 32-bit machine, where the sum is the arena
  size, and then \<^verbatim>\<open>memory_alloc(0xFFFFFFF0)\<close>: the rounded size plus the header size
  wraps to 0, the test of line 72 passes on the free block at \<^verbatim>\<open>0x200068\<close>, the
  address of the new header wraps onto that block, and the block ends up as its own
  successor with payload size \<^verbatim>\<open>0xFFFFFFF0\<close>. The walk of the Block List never ends,
  so there is no sum, and the one block it keeps visiting alone takes \<open>2 ^ 32\<close> bytes.
\<close>

theorem heap_total_lost_after_wrapped_alloc:
  "memory_init cfg32 (boot cfg32 ram0 pram0) = Some (Inr (ERR_SUCCESS, booted)) \<and>
   heap_total cfg32 booted = Some 4194304 \<and>
   memory_alloc cfg32 0xFFFFFFF0 booted = Some (0x200078, wrapped) \<and>
   blk_next (heap wrapped 0x200068) = 0x200068 \<and>
   block_list (heap wrapped) (memory_list wrapped) = None \<and>
   heap_total cfg32 wrapped = None \<and>
   unat (blk_size (heap wrapped 0x200068)) + unat (sizeof_MemoryBlock cfg32) = 4294967296"
proof -
  have "block_list (heap wrapped) 0x200068 = None"
    by (rule block_list_selfloop) simp_all
  then have "block_list (heap wrapped) 0x100058 = None"
    by (subst block_list_step) simp_all
  then have bl: "block_list (heap wrapped) (memory_list wrapped) = None"
    by (simp add: block_list_step [of "0x100000"])
  then have "heap_total cfg32 wrapped = None" by (simp add: heap_total_def)
  with booted_init booted_total alloc_wrapped bl show ?thesis by simp
qed




text \<open>
  C3. The specification asks that every pointer a successful \<^verbatim>\<open>memory_alloc\<close> returns can be
  released once, and that a second release is refused with the state unchanged. For a
  pointer whose block is allocated and lies in a state with a finite Block List this is
  the lemma \<open>double_free_detected\<close>, and \<open>release_twice\<close> gives it for every
  allocation from a well-formed heap whose request does not wrap. The theorem runs
  \<^verbatim>\<open>memory_init\<close> and \<^verbatim>\<open>memory_alloc(0xFFFFFFF0)\<close>, which returns a pointer that is
  not null and leaves its block as its own successor; \<^verbatim>\<open>memory_free\<close> of that
  pointer marks the block free, and \<^verbatim>\<open>memory_coalesce\<close> then merges the block with
  itself for ever: the first release never returns.
\<close>

theorem free_after_wrapped_alloc_diverges:
  "memory_init cfg32 (boot cfg32 ram0 pram0) = Some (Inr (ERR_SUCCESS, booted)) \<and>
   memory_alloc cfg32 0xFFFFFFF0 booted = Some (0x200078, wrapped) \<and>
   (0x200078 :: addr) \<noteq> 0 \<and>
   memory_free cfg32 0x200078 wrapped = None"
proof -
  define t where "t = store_free 0x200068 True wrapped"
  define u where "u = t\<lparr>memory_used := memory_used t - (blk_size (heap t 0x200068) + 16)\<rparr>"
  define v where "v = u\<lparr>memory_free_ctr := memory_free_ctr u + (blk_size (heap u 0x200068) + 16)\<rparr>"
  have hv: "heap v 0x100000 = heap booted 0x100000" "heap v 0x100058 = heap booted 0x100058"
    "heap v 0x200068 = \<lparr>blk_size = 0xFFFFFFF0, blk_free = True, blk_next = 0x200068, blk_prev = 0x200068\<rparr>"
    "memory_list v = 0x100000"
    by (simp_all add: v_def u_def t_def store_free_def)
  have "coalesce_loop cfg32 v 0x200068 = None"
    by (rule coalesce_loop_selfloop) (simp_all add: hv)
  then have "coalesce_loop cfg32 v 0x100058 = None"
    by (subst coalesce_loop_skip) (simp_all add: hv)
  then have "coalesce_loop cfg32 v 0x100000 = None"
    by (subst coalesce_loop_skip) (simp_all add: hv)
  then have "memory_coalesce cfg32 v = None"
    by (simp add: memory_coalesce_def hv)
  then have "memory_free cfg32 0x200078 wrapped = None"
    by (simp add: memory_free_def Let_def v_def u_def t_def)
  with booted_init alloc_wrapped show ?thesis by simp
qed

text \<open>
  C4. Let the Block List be \<open>pre @ run @ post\<close>, where \<open>run\<close> is a maximal run of
  \<open>K\<close> adjacent free blocks. One call of \<^verbatim>\<open>memory_coalesce\<close> returns, and a second
  call changes nothing. Afterwards the first block of the run is the only block of the
  run left in the list, it is free, and its payload size is the sum of the \<open>K\<close>
  payload sizes plus \<open>K - 1\<close> header sizes (as \<^verbatim>\<open>u32\<close> values, and as natural
  numbers in a well-formed heap). The block count goes down by \<open>K - 1\<close> for this run,
  plus what the blocks before and after the run lose in runs of their own; where they
  hold no two adjacent free blocks, they are unchanged and the count goes down by
  exactly \<open>K - 1\<close>.
\<close>

theorem coalesce_collapses_run:
  assumes ch: "chain (heap s) (memory_list s) (pre @ run @ post)"
    and run: "run \<noteq> []" "\<forall>a \<in> set run. blk_free (heap s a)"
    and maxl: "pre = [] \<or> \<not> blk_free (heap s (last pre))"
    and maxr: "post = [] \<or> \<not> blk_free (heap s (hd post))"
  shows "\<exists>s' pre' post'.
      memory_coalesce cfg s = Some s' \<and> memory_coalesce cfg s' = Some s' \<and>
      block_list (heap s') (memory_list s') = Some (pre' @ hd run # post') \<and>
      set pre' \<subseteq> set pre \<and> set post' \<subseteq> set post \<and>
      length pre' \<le> length pre \<and> length post' \<le> length post \<and>
      blk_free (heap s' (hd run)) \<and>
      blk_size (heap s' (hd run)) =
        sum_list (map (\<lambda>a. blk_size (heap s a)) run)
          + of_nat (length run - 1) * sizeof_MemoryBlock cfg \<and>
      memory_block_count s' =
        memory_block_count s - of_nat (length run - 1)
          - of_nat (length pre - length pre') - of_nat (length post - length post') \<and>
      (no_adjacent_free (view (heap s) pre) \<and> no_adjacent_free (view (heap s) post) \<longrightarrow>
         pre' = pre \<and> post' = post) \<and>
      (wf_heap cfg s (pre @ run @ post) \<longrightarrow>
         wf_heap cfg s' (pre' @ hd run # post') \<and>
         unat (blk_size (heap s' (hd run))) =
           sum_list (map (\<lambda>a. unat (blk_size (heap s a))) run)
             + (length run - 1) * unat (sizeof_MemoryBlock cfg))"
proof -
  define hdr where "hdr = sizeof_MemoryBlock cfg"
  define Sz where "Sz = sum_list (map (\<lambda>a. blk_size (heap s a)) run) + of_nat (length run - 1) * hdr"
  define Rpre where "Rpre = coalesce_list hdr (view (heap s) pre)"
  define Rpost where "Rpost = coalesce_list hdr (view (heap s) post)"
  define R where "R = coalesce_list hdr (view (heap s) (pre @ run @ post))"
  define pre' where "pre' = map fst Rpre"
  define post' where "post' = map fst Rpost"
  have R: "R = Rpre @ (hd run, Sz, True) # Rpost"
    unfolding R_def Rpre_def Rpost_def Sz_def using run maxl maxr by (rule coalesce_view_run)
  then have mR: "map fst R = pre' @ hd run # post'"
    by (simp add: pre'_def post'_def)
  from coalesce_loop_chain [OF ch, of cfg] obtain s' where
    r: "coalesce_loop cfg s (memory_list s) = Some s'"
    and c: "chain (heap s') (memory_list s) (map fst R)"
    and v: "view (heap s') (map fst R) = R"
    and n: "memory_block_count s' + of_nat (length (pre @ run @ post)) =
            memory_block_count s + of_nat (length R)"
    and g: "s' = s\<lparr>heap := heap s', memory_block_count := memory_block_count s'\<rparr>"
    unfolding R_def hdr_def by blast
  from mem_state_list_unchanged [OF g] have ml: "memory_list s' = memory_list s" by simp
  have r1: "memory_coalesce cfg s = Some s'" using r by (simp add: memory_coalesce_def)
  have "no_adjacent_free R"
    unfolding R_def by (rule coalesce_list_no_adjacent)
  then have "no_adjacent_free (view (heap s') (map fst R))"
    by (simp only: v)
  with c have "coalesce_loop cfg s' (memory_list s) = Some s'" by (rule coalesce_loop_fixed)
  then have r2: "memory_coalesce cfg s' = Some s'" by (simp add: memory_coalesce_def ml)
  have bl: "block_list (heap s') (memory_list s') = Some (pre' @ hd run # post')"
    using c by (simp add: ml mR block_list_chain)
  have sub: "set pre' \<subseteq> set pre" "set post' \<subseteq> set post"
    using coalesce_list_addrs [of hdr "view (heap s) pre"]
      coalesce_list_addrs [of hdr "view (heap s) post"]
    by (simp_all add: pre'_def post'_def Rpre_def Rpost_def)
  have len: "length pre' \<le> length pre" "length post' \<le> length post"
    using coalesce_list_length [of hdr "view (heap s) pre"]
      coalesce_list_length [of hdr "view (heap s) post"]
    by (simp_all add: pre'_def post'_def Rpre_def Rpost_def)
  from v have v': "view (heap s') (pre' @ hd run # post') = R" by (simp only: mR)
  from v' [unfolded R] have blk: "blk_free (heap s' (hd run))" "blk_size (heap s' (hd run)) = Sz"
    by (simp_all add: pre'_def post'_def)
  have K: "(of_nat (length run - 1) :: u32) = of_nat (length run) - 1"
    using run(1) by (cases run) simp_all
  have dpre: "(of_nat (length pre - length pre') :: u32) = of_nat (length pre) - of_nat (length pre')"
    using len(1) by (simp add: of_nat_diff)
  have dpost: "(of_nat (length post - length post') :: u32) = of_nat (length post) - of_nat (length post')"
    using len(2) by (simp add: of_nat_diff)
  have "length R = length pre' + 1 + length post'"
    using arg_cong [OF mR, of length] by simp
  with n have "memory_block_count s' + of_nat (length pre) + of_nat (length run) + of_nat (length post) =
      memory_block_count s + of_nat (length pre') + 1 + of_nat (length post')"
    by (simp add: ac_simps)
  then have cnt: "memory_block_count s' =
        memory_block_count s - of_nat (length run - 1)
          - of_nat (length pre - length pre') - of_nat (length post - length post')"
    unfolding K dpre dpost by (simp add: algebra_simps)
  have fixed: "pre' = pre \<and> post' = post"
    if "no_adjacent_free (view (heap s) pre) \<and> no_adjacent_free (view (heap s) post)"
    using that by (simp add: pre'_def post'_def Rpre_def Rpost_def coalesce_list_fixed)
  have wfpart: "wf_heap cfg s' (pre' @ hd run # post') \<and>
         unat (blk_size (heap s' (hd run))) =
           sum_list (map (\<lambda>a. unat (blk_size (heap s a))) run)
             + (length run - 1) * unat hdr"
    if wf: "wf_heap cfg s (pre @ run @ post)"
  proof -
    from memory_coalesce_wf [OF wf] r1
    have w': "wf_heap cfg s' (pre' @ hd run # post')"
      by (simp add: mR [symmetric] R_def hdr_def)
    from wf have lay: "layout cfg (view (heap s) (pre @ run @ post)) (unat heap_start) (unat heap_start + unat heap_size)"
      by (simp add: wf_heap_def)
    then obtain m1 m2 where l1: "layout cfg (view (heap s) pre) (unat heap_start) m1"
      and l2: "layout cfg (view (heap s) run) m1 m2"
      and l3: "layout cfg (view (heap s) post) m2 (unat heap_start + unat heap_size)"
      by (auto simp: layout_append)
    from layout_le [OF l3] have "m2 \<le> 5242880" by (simp add: arena_end)
    with layout_view_total [OF l2]
    have b1: "sum_list (map (\<lambda>a. unat (blk_size (heap s a))) run) + length run * unat hdr \<le> 5242880"
      by (simp add: hdr_def)
    have "sum_list (map (\<lambda>a. unat (blk_size (heap s a))) run) + (length run - 1) * unat hdr
        \<le> sum_list (map (\<lambda>a. unat (blk_size (heap s a))) run) + length run * unat hdr"
      by (simp add: mult_le_mono1)
    from this b1
    have "sum_list (map (\<lambda>a. unat (blk_size (heap s a))) run) + (length run - 1) * unat hdr \<le> 5242880"
      by (rule order_trans)
    then have "sum_list (map unat (map (\<lambda>a. blk_size (heap s a)) run)) + (length run - 1) * unat hdr < 2 ^ 32"
      by (simp add: comp_def)
    from unat_sum_sizes [OF this] have "unat Sz =
        sum_list (map (\<lambda>a. unat (blk_size (heap s a))) run) + (length run - 1) * unat hdr"
      by (simp add: Sz_def comp_def)
    with w' blk(2) show ?thesis by simp
  qed
  from r1 r2 bl sub len blk cnt fixed wfpart show ?thesis
    unfolding Sz_def hdr_def by blast
qed

theorem coalesce_collapses_run_witness:
  "chain (heap frag) (memory_list frag)
     ([0x100000] @ [0x100018, 0x100030, 0x100050] @ [0x100078, 0x100090]) \<and>
   blk_free (heap frag 0x100018) \<and> blk_free (heap frag 0x100030) \<and>
   blk_free (heap frag 0x100050) \<and>
   \<not> blk_free (heap frag (last [0x100000])) \<and>
   \<not> blk_free (heap frag (hd [0x100078, 0x100090])) \<and>
   (\<exists>s'. memory_coalesce cfg32 frag = Some s' \<and> memory_coalesce cfg32 s' = Some s' \<and>
      block_list (heap s') (memory_list s') = Some [0x100000, 0x100018, 0x100078, 0x100090] \<and>
      blk_free (heap s' 0x100018) \<and> blk_size (heap s' 0x100018) = 80 \<and>
      memory_block_count s' = 4 \<and>
      wf_heap cfg32 s' [0x100000, 0x100018, 0x100078, 0x100090])"
proof -
  have ch: "chain (heap frag) (memory_list frag)
     ([0x100000] @ [0x100018, 0x100030, 0x100050] @ [0x100078, 0x100090])"
    by simp
  have run: "[0x100018, 0x100030, 0x100050 :: addr] \<noteq> []"
    "\<forall>a \<in> set [0x100018, 0x100030, 0x100050]. blk_free (heap frag a)"
    by simp_all
  have maxl: "[0x100000 :: addr] = [] \<or> \<not> blk_free (heap frag (last [0x100000]))" by simp
  have maxr: "[0x100078, 0x100090 :: addr] = [] \<or> \<not> blk_free (heap frag (hd [0x100078, 0x100090]))"
    by simp
  from coalesce_collapses_run [OF ch run maxl maxr, of cfg32] frag_wf
  show ?thesis by (auto simp add: view_def)
qed

text \<open>
  C5. The specification asks that a pointer \<^verbatim>\<open>memory_alloc(n)\<close> returns has at least \<open>n\<close> bytes
  of payload, for every \<^verbatim>\<open>u32\<close> value of \<open>n\<close>. For \<open>n\<close> up to \<open>2 ^ 32 - 8\<close>
  this is the lemma \<open>granted_payload\<close>. The theorem runs \<^verbatim>\<open>memory_init\<close> and
  \<^verbatim>\<open>memory_alloc(0xFFFFFFFF)\<close>: adding 7 wraps, the rounded size is 0, and the call
  returns a pointer that is not null to a block whose payload size is 0.
\<close>

theorem wrapped_request_gets_empty_block:
  "memory_init cfg32 (boot cfg32 ram0 pram0) = Some (Inr (ERR_SUCCESS, booted)) \<and>
   memory_alloc cfg32 0xFFFFFFFF booted = Some (0x200078, zero_sized) \<and>
   (0x200078 :: addr) \<noteq> 0 \<and>
   blk_size (heap zero_sized (0x200078 - sizeof_MemoryBlock cfg32)) = 0 \<and>
   unat (blk_size (heap zero_sized (0x200078 - sizeof_MemoryBlock cfg32))) < unat (0xFFFFFFFF :: u32)"
  using booted_init alloc_zero_sized by (simp add: zero_sized_def)

text \<open>
  C6. The specification asks that \<^verbatim>\<open>memory_alloc\<close> rounds the size up to a multiple of 8,
  takes the first free block of the Block List whose payload size is at least the
  rounded size plus the header size, and returns null with the Block List unchanged when
  there is no such block. For every request whose rounding and whose sum with the header
  size stay below \<open>2 ^ 32\<close> this is the lemma \<open>first_fit_without_wrap\<close>. The theorem
  runs \<^verbatim>\<open>memory_init\<close> and \<^verbatim>\<open>memory_alloc(0xFFFFFFF0)\<close>: the rounded size is
  \<^verbatim>\<open>0xFFFFFFF0\<close>, each of the three blocks of the list has a payload smaller than the
  rounded size plus the header size, and yet the call returns a pointer that is not null
  and leaves a Block List that is not the one from before the call.
\<close>

theorem first_fit_grants_oversized_request:
  "memory_init cfg32 (boot cfg32 ram0 pram0) = Some (Inr (ERR_SUCCESS, booted)) \<and>
   block_list (heap booted) (memory_list booted) = Some [0x100000, 0x100058, 0x200068] \<and>
   unat (align8 0xFFFFFFF0) = 4294967280 \<and>
   unat (blk_size (heap booted 0x100000))
     < unat (align8 0xFFFFFFF0) + unat (sizeof_MemoryBlock cfg32) \<and>
   unat (blk_size (heap booted 0x100058))
     < unat (align8 0xFFFFFFF0) + unat (sizeof_MemoryBlock cfg32) \<and>
   unat (blk_size (heap booted 0x200068))
     < unat (align8 0xFFFFFFF0) + unat (sizeof_MemoryBlock cfg32) \<and>
   memory_alloc cfg32 0xFFFFFFF0 booted = Some (0x200078, wrapped) \<and>
   (0x200078 :: addr) \<noteq> 0 \<and>
   block_list (heap wrapped) (memory_list wrapped)
     \<noteq> block_list (heap booted) (memory_list booted)"
proof -
  have a: "align8 0xFFFFFFF0 = 0xFFFFFFF0" by (simp add: align8_def)
  from booted_init booted_block_list alloc_wrapped wrapped_cyclic show ?thesis
    by (simp add: a)
qed

text \<open>
  C7. In a well-formed heap with a free registry count, on a machine where the rounded
  size of the pool structure plus a header does not wrap: when the first allocation of
  \<^verbatim>\<open>mempool_create\<close> (the pool structure) succeeds and the second (the body) returns
  null, the second allocation has changed nothing, \<^verbatim>\<open>mempool_create\<close> returns null, and
  its final state is the one a successful \<^verbatim>\<open>memory_free\<close> of the pool structure
  leaves: the block of the structure is free again, the registry array, the pool count
  and the pool structures in memory are those from before the call, and so are the used
  and free counters. Where the heap held no two adjacent free blocks before the call,
  the Block List, its sizes and flags and the block count are restored as well.
\<close>

theorem mempool_create_body_failure:
  assumes wf: "wf_heap cfg s as"
    and room: "memory_pool_count s < MAX_MEMPOOLS cfg"
    and nowrap: "unat (align8 (sizeof_MemoryPool cfg)) + unat (sizeof_MemoryBlock cfg) < 2 ^ 32"
    and a1: "memory_alloc cfg (sizeof_MemoryPool cfg) s = Some (pool, s1)"
    and ok: "pool \<noteq> 0"
    and a2: "memory_alloc cfg size' s1 = Some (0, s2)"
  shows "s2 = s1 \<and>
     (\<exists>s'. mempool_create cfg name type size' s = Some (0, s') \<and>
        memory_free cfg pool s1 = Some (ERR_SUCCESS, s') \<and>
        blk_free (heap s' (pool - sizeof_MemoryBlock cfg)) \<and>
        memory_pools s' = memory_pools s \<and> memory_pool_count s' = memory_pool_count s \<and>
        pool_mem s' = pool_mem s \<and>
        memory_used s' = memory_used s \<and> memory_free_ctr s' = memory_free_ctr s \<and>
        (no_adjacent_free (view (heap s) as) \<longrightarrow>
           block_list (heap s') (memory_list s') = Some as \<and>
           view (heap s') as = view (heap s) as \<and>
           memory_block_count s' = memory_block_count s))"
proof -
  from memory_alloc_success [OF wf nowrap a1 ok] obtain as1 where w1: "wf_heap cfg s1 as1"
    by blast
  from memory_alloc_failure [OF w1 a2] have e: "s2 = s1" .
  from alloc_then_free [OF wf nowrap a1 ok] obtain s' where
    f: "memory_free cfg pool s1 = Some (ERR_SUCCESS, s')"
    and rest: "blk_free (heap s' (pool - sizeof_MemoryBlock cfg)) \<and>
        memory_pools s' = memory_pools s \<and> memory_pool_count s' = memory_pool_count s \<and>
        pool_mem s' = pool_mem s \<and>
        memory_used s' = memory_used s \<and> memory_free_ctr s' = memory_free_ctr s \<and>
        (no_adjacent_free (view (heap s) as) \<longrightarrow>
           block_list (heap s') (memory_list s') = Some as \<and>
           view (heap s') as = view (heap s) as \<and>
           memory_block_count s' = memory_block_count s)"
    by blast
  from room have "\<not> MAX_MEMPOOLS cfg \<le> memory_pool_count s" by simp
  with a1 ok a2 e f have "mempool_create cfg name type size' s = Some (0, s')"
    by (simp add: mempool_create_def)
  with e f rest show ?thesis by blast
qed

theorem mempool_create_body_failure_witness:
  "wf_heap cfg32 booted [0x100000, 0x100058, 0x200068] \<and>
   memory_pool_count booted < MAX_MEMPOOLS cfg32 \<and>
   unat (align8 (sizeof_MemoryPool cfg32)) + unat (sizeof_MemoryBlock cfg32) < 2 ^ 32 \<and>
   memory_alloc cfg32 (sizeof_MemoryPool cfg32) booted =
     Some (0x200078, snd (split_block cfg32 72 0x200068 booted)) \<and>
   (0x200078 :: addr) \<noteq> 0 \<and>
   memory_alloc cfg32 0x300000 (snd (split_block cfg32 72 0x200068 booted)) =
     Some (0, snd (split_block cfg32 72 0x200068 booted)) \<and>
   (\<exists>s'. mempool_create cfg32 ''big'' MEM_POOL_LARGE 0x300000 booted = Some (0, s') \<and>
      blk_free (heap s' 0x200068) \<and>
      memory_pools s' = memory_pools booted \<and> memory_pool_count s' = 1 \<and>
      block_list (heap s') (memory_list s') = Some [0x100000, 0x100058, 0x200068] \<and>
      memory_block_count s' = 3)"
proof -
  define s1 where "s1 = snd (split_block cfg32 72 0x200068 booted)"
  have a72: "align8 72 = 72" and a3: "align8 0x300000 = 0x300000" by (simp_all add: align8_def)
  have room: "memory_pool_count booted < MAX_MEMPOOLS cfg32" by (simp add: booted_def)
  have nowrap: "unat (align8 (sizeof_MemoryPool cfg32)) + unat (sizeof_MemoryBlock cfg32) < 2 ^ 32"
    by (simp add: a72)
  have a1: "memory_alloc cfg32 (sizeof_MemoryPool cfg32) booted = Some (0x200078, s1)"
    using booted_alloc [of 72] by (simp add: a72 fits_def s1_def)
  have ok: "(0x200078 :: addr) \<noteq> 0" by simp
  have "chain (heap s1) (memory_list s1) [0x100000, 0x100058, 0x200068, 0x2000C0]"
    by (simp add: s1_def first_alloc_heap)
  from memory_alloc_chain [OF this, of "0x300000" cfg32]
  have a2: "memory_alloc cfg32 0x300000 s1 = Some (0, s1)"
    by (simp add: a3 fits_def s1_def first_alloc_heap)
  have na: "no_adjacent_free (view (heap booted) [0x100000, 0x100058, 0x200068])"
    by simp
  have c: "memory_block_count booted = 3" "memory_pool_count booted = 1" by (simp_all add: booted_def)
  from mempool_create_body_failure [OF booted_wf room nowrap a1 ok a2, of "''big''" MEM_POOL_LARGE]
    na booted_wf room nowrap a1 ok a2
  show ?thesis unfolding s1_def by (auto simp add: c)
qed

text \<open>
  C8, as stated, fails on a request of size 0: the default pool of the booted machine has
  \<open>used + 0 \<le> size\<close>, so the sentence asks for the address \<open>base_address + used\<close>, and
  the guard of line 202 returns null.
\<close>

theorem mempool_alloc_zero_size_counterexample:
  "pool_used (pool_mem booted 0x100010) + 0 \<le> pool_size (pool_mem booted 0x100010) \<and>
   pool_base_address (pool_mem booted 0x100010) + pool_used (pool_mem booted 0x100010) = 0x100068 \<and>
   mempool_alloc 0x100010 0 booted = (0, booted)"
  by (simp add: mempool_alloc_def booted_def new_pool_def)

text \<open>
  C8, amended. For a pool that is not null and a size that is not 0, with \<open>used + size\<close>
  below \<open>2 ^ 32\<close>: when \<open>used + size \<le> pool.size\<close>, \<^verbatim>\<open>mempool_alloc\<close> returns
  \<open>base_address + used\<close>, advances \<open>used\<close> by the size, counts the allocation and raises
  \<open>peak_usage\<close> to the new \<open>used\<close> when that is larger; when \<open>used + size > pool.size\<close> it
  returns null and changes nothing. A request of size 0 returns null and changes
  nothing. Freed space is never reused: \<^verbatim>\<open>mempool_free\<close> of a pointer that is not null
  adds one to the \<open>frees\<close> counter of the pool and changes nothing else, so \<open>used\<close> and
  the address a later \<^verbatim>\<open>mempool_alloc\<close> returns are the same with and without the
  release. In a pool of 4096 bytes with nothing used, a request of 4000 bytes succeeds at
  the base address and a following request of 200 bytes returns null, also when any
  pointer has been released in between.
\<close>

theorem mempool_alloc_bump:
  assumes "pool \<noteq> 0" and "size' \<noteq> 0"
    and "unat (pool_used (pool_mem s pool)) + unat size' < 2 ^ 32"
  shows "(unat (pool_used (pool_mem s pool)) + unat size' \<le> unat (pool_size (pool_mem s pool)) \<longrightarrow>
          mempool_alloc pool size' s =
            (pool_base_address (pool_mem s pool) + pool_used (pool_mem s pool),
             s\<lparr>pool_mem := (pool_mem s)
                 (pool := (pool_mem s pool)
                    \<lparr>pool_used := pool_used (pool_mem s pool) + size',
                     pool_allocations := pool_allocations (pool_mem s pool) + 1,
                     pool_peak_usage :=
                       max (pool_peak_usage (pool_mem s pool))
                           (pool_used (pool_mem s pool) + size')\<rparr>)\<rparr>)) \<and>
         (unat (pool_size (pool_mem s pool)) < unat (pool_used (pool_mem s pool)) + unat size' \<longrightarrow>
          mempool_alloc pool size' s = (0, s)) \<and>
         mempool_alloc pool 0 s = (0, s) \<and>
         (\<forall>ptr. ptr \<noteq> 0 \<longrightarrow>
            mempool_free pool ptr s =
              (ERR_SUCCESS,
               s\<lparr>pool_mem := (pool_mem s)
                   (pool := (pool_mem s pool)
                      \<lparr>pool_frees := pool_frees (pool_mem s pool) + 1\<rparr>)\<rparr>)) \<and>
         (\<forall>ptr. pool_used (pool_mem (snd (mempool_free pool ptr s)) pool) =
                  pool_used (pool_mem s pool) \<and>
                fst (mempool_alloc pool size' (snd (mempool_free pool ptr s))) =
                  fst (mempool_alloc pool size' s)) \<and>
         (pool_size (pool_mem s pool) = 4096 \<and> pool_used (pool_mem s pool) = 0 \<longrightarrow>
          fst (mempool_alloc pool 4000 s) = pool_base_address (pool_mem s pool) \<and>
          pool_used (pool_mem (snd (mempool_alloc pool 4000 s)) pool) = 4000 \<and>
          mempool_alloc pool 200 (snd (mempool_alloc pool 4000 s)) =
            (0, snd (mempool_alloc pool 4000 s)) \<and>
          (\<forall>ptr. mempool_alloc pool 200
                    (snd (mempool_free pool ptr (snd (mempool_alloc pool 4000 s)))) =
                  (0, snd (mempool_free pool ptr (snd (mempool_alloc pool 4000 s))))))"
proof -
  have "unat (pool_used (pool_mem s pool)) + unat size' < 2 ^ LENGTH(32)"
    using assms(3) by simp
  then have u: "unat (pool_used (pool_mem s pool) + size') =
      unat (pool_used (pool_mem s pool)) + unat size'"
    by (simp only: unat_add_lem)
  have le: "pool_size (pool_mem s pool) < pool_used (pool_mem s pool) + size' \<longleftrightarrow>
      unat (pool_size (pool_mem s pool)) < unat (pool_used (pool_mem s pool)) + unat size'"
    by (simp add: word_less_nat_alt u)
  have 1: "unat (pool_used (pool_mem s pool)) + unat size' \<le> unat (pool_size (pool_mem s pool)) \<longrightarrow>
          mempool_alloc pool size' s =
            (pool_base_address (pool_mem s pool) + pool_used (pool_mem s pool),
             s\<lparr>pool_mem := (pool_mem s)
                 (pool := (pool_mem s pool)
                    \<lparr>pool_used := pool_used (pool_mem s pool) + size',
                     pool_allocations := pool_allocations (pool_mem s pool) + 1,
                     pool_peak_usage :=
                       max (pool_peak_usage (pool_mem s pool))
                           (pool_used (pool_mem s pool) + size')\<rparr>)\<rparr>)"
    using assms(1,2) by (auto simp add: mempool_alloc_def Let_def le max_def not_less)
  have 2: "unat (pool_size (pool_mem s pool)) < unat (pool_used (pool_mem s pool)) + unat size' \<longrightarrow>
          mempool_alloc pool size' s = (0, s)"
    by (simp add: mempool_alloc_def le)
  have 3: "mempool_alloc pool 0 s = (0, s)" by (simp add: mempool_alloc_def)
  have 5: "\<forall>ptr. ptr \<noteq> 0 \<longrightarrow>
            mempool_free pool ptr s =
              (ERR_SUCCESS,
               s\<lparr>pool_mem := (pool_mem s)
                   (pool := (pool_mem s pool)
                      \<lparr>pool_frees := pool_frees (pool_mem s pool) + 1\<rparr>)\<rparr>)"
    using assms(1) by (simp add: mempool_free_def)
  have fr: "pool_used (pool_mem (snd (mempool_free pool ptr t)) pool) = pool_used (pool_mem t pool) \<and>
      pool_size (pool_mem (snd (mempool_free pool ptr t)) pool) = pool_size (pool_mem t pool) \<and>
      pool_base_address (pool_mem (snd (mempool_free pool ptr t)) pool) =
        pool_base_address (pool_mem t pool)" for ptr t
    by (simp add: mempool_free_def)
  have 6: "\<forall>ptr. pool_used (pool_mem (snd (mempool_free pool ptr s)) pool) =
                  pool_used (pool_mem s pool) \<and>
                fst (mempool_alloc pool size' (snd (mempool_free pool ptr s))) =
                  fst (mempool_alloc pool size' s)"
    using fr [of _ s] by (simp add: mempool_alloc_def Let_def)
  have 4: "fst (mempool_alloc pool 4000 s) = pool_base_address (pool_mem s pool) \<and>
          pool_used (pool_mem (snd (mempool_alloc pool 4000 s)) pool) = 4000 \<and>
          mempool_alloc pool 200 (snd (mempool_alloc pool 4000 s)) =
            (0, snd (mempool_alloc pool 4000 s)) \<and>
          (\<forall>ptr. mempool_alloc pool 200
                    (snd (mempool_free pool ptr (snd (mempool_alloc pool 4000 s)))) =
                  (0, snd (mempool_free pool ptr (snd (mempool_alloc pool 4000 s)))))"
    if h: "pool_size (pool_mem s pool) = 4096 \<and> pool_used (pool_mem s pool) = 0"
  proof -
    define t where "t = snd (mempool_alloc pool 4000 s)"
    from h assms(1) have f: "fst (mempool_alloc pool 4000 s) = pool_base_address (pool_mem s pool)"
      by (simp add: mempool_alloc_def Let_def)
    from h assms(1) have ut: "pool_used (pool_mem t pool) = 4000 \<and> pool_size (pool_mem t pool) = 4096"
      by (simp add: t_def mempool_alloc_def Let_def)
    then have a: "mempool_alloc pool 200 t = (0, t)"
      using assms(1) by (simp add: mempool_alloc_def)
    have b: "mempool_alloc pool 200 (snd (mempool_free pool ptr t)) = (0, snd (mempool_free pool ptr t))"
      for ptr
    proof -
      from ut fr [of ptr t]
      have "pool_used (pool_mem (snd (mempool_free pool ptr t)) pool) = 4000 \<and>
          pool_size (pool_mem (snd (mempool_free pool ptr t)) pool) = 4096"
        by simp
      then show ?thesis using assms(1) by (simp add: mempool_alloc_def)
    qed
    from f ut a b show ?thesis by (simp add: t_def)
  qed
  from 1 2 3 4 5 6 show ?thesis by blast
qed

theorem mempool_alloc_bump_witness:
  "(0x200078 :: addr) \<noteq> 0 \<and> (4000 :: u32) \<noteq> 0 \<and>
   unat (pool_used (pool_mem two_pools 0x200078)) + unat (4000 :: u32) < 2 ^ 32 \<and>
   pool_size (pool_mem two_pools 0x200078) = 4096 \<and>
   pool_used (pool_mem two_pools 0x200078) = 0 \<and>
   fst (mempool_alloc 0x200078 4000 two_pools) = 0x2000D0 \<and>
   pool_used (pool_mem (snd (mempool_alloc 0x200078 4000 two_pools)) 0x200078) = 4000 \<and>
   mempool_alloc 0x200078 200 (snd (mempool_alloc 0x200078 4000 two_pools)) =
     (0, snd (mempool_alloc 0x200078 4000 two_pools)) \<and>
   (0x2000D0 :: addr) \<noteq> 0 \<and>
   fst (mempool_free 0x200078 0x2000D0 (snd (mempool_alloc 0x200078 4000 two_pools))) = ERR_SUCCESS \<and>
   pool_used (pool_mem (snd (mempool_free 0x200078 0x2000D0
       (snd (mempool_alloc 0x200078 4000 two_pools)))) 0x200078) = 4000 \<and>
   mempool_alloc 0x200078 200
       (snd (mempool_free 0x200078 0x2000D0 (snd (mempool_alloc 0x200078 4000 two_pools)))) =
     (0, snd (mempool_free 0x200078 0x2000D0 (snd (mempool_alloc 0x200078 4000 two_pools))))"
proof -
  define t where "t = snd (mempool_alloc 0x200078 4000 two_pools)"
  have a: "(0x200078 :: addr) \<noteq> 0" and b: "(4000 :: u32) \<noteq> 0" and b': "(200 :: u32) \<noteq> 0"
    and q: "(0x2000D0 :: addr) \<noteq> 0"
    by simp_all
  have p: "pool_mem two_pools 0x200078 = new_pool cfg32 1 ''net'' MEM_POOL_SMALL 0x2000D0 4096"
    by (simp add: two_pools_def)
  have c: "unat (pool_used (pool_mem two_pools 0x200078)) + unat (4000 :: u32) < 2 ^ 32"
    by (simp add: p new_pool_def)
  have d: "pool_size (pool_mem two_pools 0x200078) = 4096 \<and>
      pool_used (pool_mem two_pools 0x200078) = 0"
    by (simp add: p new_pool_def)
  have e: "pool_base_address (pool_mem two_pools 0x200078) = 0x2000D0"
    by (simp add: p new_pool_def)
  from mempool_alloc_bump [OF a b c] d have s1:
    "fst (mempool_alloc 0x200078 4000 two_pools) = pool_base_address (pool_mem two_pools 0x200078)"
    "pool_used (pool_mem t 0x200078) = 4000"
    "mempool_alloc 0x200078 200 t = (0, t)"
    "mempool_alloc 0x200078 200 (snd (mempool_free 0x200078 0x2000D0 t)) =
       (0, snd (mempool_free 0x200078 0x2000D0 t))"
    unfolding t_def by blast+
  from s1(2) have c': "unat (pool_used (pool_mem t 0x200078)) + unat (200 :: u32) < 2 ^ 32"
    by simp
  from mempool_alloc_bump [OF a b' c'] q have s2:
    "fst (mempool_free 0x200078 0x2000D0 t) = ERR_SUCCESS"
    "pool_used (pool_mem (snd (mempool_free 0x200078 0x2000D0 t)) 0x200078) =
       pool_used (pool_mem t 0x200078)"
    by simp_all
  from a b c d e q s1 s2 show ?thesis unfolding t_def by simp
qed




text \<open>
  C10. The specification asks that every successful \<^verbatim>\<open>memory_alloc\<close> splits the block it selects:
  a free remainder block is spliced in after it and the block count goes up by one. For
  every request whose rounded size plus the header size stays below \<open>2 ^ 32\<close> this is
  the lemma \<open>split_without_wrap\<close>, with a remainder of payload size 0 on an exact fit
  (\<open>exact_fit_on_booted\<close>). The theorem runs \<^verbatim>\<open>memory_init\<close> and
  \<^verbatim>\<open>memory_alloc(0xFFFFFFF0)\<close>: the free block at \<^verbatim>\<open>0x200068\<close> passes the test
  and the call succeeds and counts a fourth block, but the address computed for the
  remainder is that of the selected block itself. The stores meant for the remainder are
  overwritten by those for the selected block, which ends up allocated and as its own
  successor; no other header is written, so the heap holds three headers, none of them
  free, and no remainder.
\<close>

theorem wrapped_alloc_leaves_no_remainder:
  "memory_init cfg32 (boot cfg32 ram0 pram0) = Some (Inr (ERR_SUCCESS, booted)) \<and>
   fits cfg32 (align8 0xFFFFFFF0) booted 0x200068 \<and>
   memory_alloc cfg32 0xFFFFFFF0 booted = Some (0x200078, wrapped) \<and>
   (0x200078 :: addr) \<noteq> 0 \<and>
   memory_block_count booted = 3 \<and> memory_block_count wrapped = 4 \<and>
   (0x200068 :: addr) + sizeof_MemoryBlock cfg32 + align8 0xFFFFFFF0 = 0x200068 \<and>
   heap wrapped = (heap booted)
     (0x200068 :=
        \<lparr>blk_size = 0xFFFFFFF0, blk_free = False, blk_next = 0x200068, blk_prev = 0x200068\<rparr>) \<and>
   \<not> blk_free (heap wrapped 0x100000) \<and> \<not> blk_free (heap wrapped 0x100058) \<and>
   \<not> blk_free (heap wrapped 0x200068)"
proof -
  have a: "align8 0xFFFFFFF0 = 0xFFFFFFF0" by (simp add: align8_def)
  have f: "fits cfg32 (align8 0xFFFFFFF0) booted 0x200068" by (simp add: a fits_def)
  have c: "memory_block_count booted = 3" "memory_block_count wrapped = 4"
    by (simp_all add: wrapped_def booted_def)
  have h: "heap wrapped = (heap booted)
     (0x200068 :=
        \<lparr>blk_size = 0xFFFFFFF0, blk_free = False, blk_next = 0x200068, blk_prev = 0x200068\<rparr>)"
    by (simp add: wrapped_def)
  from booted_init alloc_wrapped f c h show ?thesis by (simp add: a)
qed

end
